theory Spec2Isabelle
  imports Main "HOL-Library.Word" "HOL-Library.Monad_Syntax"
begin

unbundle bit_operations_syntax

section \<open>Data model of the trident adapter\<close>

type_synonym u8 = "8 word"
type_synonym u32 = "32 word"
type_synonym u64 = "64 word"

text \<open>
  A received datagram with the header fields the reorder window reads:
  \<open>pkt_seq\<close> is \<^verbatim>\<open>decoder.Seq()\<close> (uint64), \<open>pkt_timestamp\<close> is
  \<^verbatim>\<open>decoder.timestamp\<close> (a \<^verbatim>\<open>time.Duration\<close>, that is an int64, kept as a 64-bit
  word and compared with the signed order), \<open>hash\<close> is the dispatch hash.
\<close>

record packetBuffer =
  tridentIp :: u32
  tridentDispatcherIndex :: u8
  pkt_seq :: u64
  pkt_timestamp :: u64
  hash :: u8

text \<open>
  The two effects of \<^verbatim>\<open>cacheLookup\<close> on its surroundings, in the order they happen:
  \<^verbatim>\<open>slaves[k].put(p)\<close> and \<^verbatim>\<open>releasePacketBuffer(p)\<close>.
\<close>

datatype event = Put u8 packetBuffer | Release packetBuffer

record tridentDispatcher =
  cache :: "packetBuffer option list"
  timestamp :: "u64 list"
  maxTimestamp :: u64
  dropped :: u64
  seq :: u64
  startIndex :: u64

text \<open>\<^verbatim>\<open>TRIDENT_TIMEOUT = 2 * time.Second\<close>, in nanoseconds.\<close>

definition TRIDENT_TIMEOUT :: u64 where
  "TRIDENT_TIMEOUT = 2000000000"

definition TRIDENT_DISPATCHER_MAX :: nat where
  "TRIDENT_DISPATCHER_MAX = 16"

subsection \<open>Slices and queues\<close>

text \<open>
  Reading or writing a Go slice outside its length panics; \<open>None\<close> is that panic.
\<close>

definition rd :: "'a list \<Rightarrow> u64 \<Rightarrow> 'a option" where
  "rd xs i = (if unat i < length xs then Some (xs ! unat i) else None)"

definition wr :: "'a list \<Rightarrow> u64 \<Rightarrow> 'a \<Rightarrow> 'a list option" where
  "wr xs i v = (if unat i < length xs then Some (xs[unat i := v]) else None)"

text \<open>
  \<^verbatim>\<open>slaves[p.hash&uint8(len(slaves)-1)].put(p)\<close> for \<open>nslaves = len(slaves)\<close>: the
  index is computed in uint8, the slice access panics when it is out of range. Every
  element of the slice is taken to be a slave (none is nil), and \<^verbatim>\<open>put\<close> on a slave
  to return.
\<close>

definition put :: "nat \<Rightarrow> packetBuffer \<Rightarrow> event option" where
  "put nslaves p =
     (let k = hash p AND (word_of_int (int nslaves - 1) :: u8)
      in if unat k < nslaves then Some (Put k p) else None)"

subsection \<open>calcHash and minPowerOfTwo\<close>

definition calcHash :: "packetBuffer \<Rightarrow> packetBuffer" where
  "calcHash p =
     (let h = tridentIp p XOR (ucast (tridentDispatcherIndex p) :: u32);
          h1 = (ucast (drop_bit 24 h) :: u8) XOR ucast (drop_bit 16 h)
                 XOR ucast (drop_bit 8 h) XOR ucast h;
          h2 = drop_bit 6 h1 XOR drop_bit 4 h1 XOR drop_bit 2 h1 XOR h1
      in p\<lparr>hash := h2\<rparr>)"

fun minPowerOfTwo_from :: "nat \<Rightarrow> nat \<Rightarrow> u32 \<Rightarrow> u32" where
  "minPowerOfTwo_from 0 i v = push_bit 30 1"
| "minPowerOfTwo_from (Suc n) i v =
     (if v \<le> push_bit i 1 then push_bit i 1 else minPowerOfTwo_from n (Suc i) v)"

definition minPowerOfTwo :: "u32 \<Rightarrow> u32" where
  "minPowerOfTwo v = minPowerOfTwo_from 30 0 v"

section \<open>cacheLookup\<close>

text \<open>The purge loop of the restart branch (\<^verbatim>\<open>for i := 0; i < cacheSize; i++\<close>).\<close>

function purge ::
  "u64 \<Rightarrow> u64 \<Rightarrow> tridentDispatcher \<Rightarrow> event list \<Rightarrow> (tridentDispatcher \<times> event list) option"
where
  "purge cacheSize i d tr =
     (if i < cacheSize then
        do {
          c \<leftarrow> rd (cache d) i;
          (d1, tr1) \<leftarrow> (case c of
              Some q \<Rightarrow> do {
                cs \<leftarrow> wr (cache d) i None;
                Some (d\<lparr>cache := cs\<rparr>, tr @ [Release q])
              }
            | None \<Rightarrow> Some (d, tr));
          ts \<leftarrow> wr (timestamp d1) i 0;
          purge cacheSize (i + 1) (d1\<lparr>timestamp := ts\<rparr>) tr1
        }
      else Some (d, tr))"
  by pat_completeness auto

termination purge
proof (relation "measure (\<lambda>(c, i, d, tr). unat c - unat i)")
  show "wf (measure (\<lambda>(c, i, d, tr). unat c - unat i))" by simp
next
  fix cacheSize i :: u64
  assume "i < cacheSize"
  then have "unat cacheSize - unat (i + 1) < unat cacheSize - unat i" by unat_arith
  then show "\<And>d tr x y xa ya xb.
      ((cacheSize, i + 1, xa\<lparr>timestamp := xb\<rparr>, ya), cacheSize, i, d, tr)
        \<in> measure (\<lambda>(c, i, d, tr). unat c - unat i)"
    by simp
qed

text \<open>
  The forced flush (\<^verbatim>\<open>for i := 0; i < cacheSize && offset >= cacheSize; i++\<close>).
  The loop state is the dispatcher, \<^verbatim>\<open>offset\<close>, the local \<^verbatim>\<open>dropped\<close> and the
  events so far.
\<close>

function forced ::
  "u64 \<Rightarrow> nat \<Rightarrow> u64 \<Rightarrow> tridentDispatcher \<Rightarrow> u64 \<Rightarrow> u64 \<Rightarrow> event list
     \<Rightarrow> (tridentDispatcher \<times> u64 \<times> u64 \<times> event list) option"
where
  "forced cacheSize nslaves i d offset drp tr =
     (if i < cacheSize \<and> offset \<ge> cacheSize then
        do {
          c \<leftarrow> rd (cache d) (startIndex d);
          (d1, drp1, tr1) \<leftarrow> (case c of
              Some q \<Rightarrow> do {
                e \<leftarrow> put nslaves q;
                cs \<leftarrow> wr (cache d) (startIndex d) None;
                Some (d\<lparr>cache := cs\<rparr>, drp, tr @ [e])
              }
            | None \<Rightarrow> Some (d, drp + 1, tr));
          ts \<leftarrow> wr (timestamp d1) i 0;
          forced cacheSize nslaves (i + 1)
            (d1\<lparr>timestamp := ts, seq := seq d1 + 1,
                startIndex := (startIndex d1 + 1) AND (cacheSize - 1)\<rparr>)
            (offset - 1) drp1 tr1
        }
      else Some (d, offset, drp, tr))"
  by pat_completeness auto

termination forced
proof (relation "measure (\<lambda>(c, n, i, d, off, drp, tr). unat c - unat i)")
  show "wf (measure (\<lambda>(c, n, i, d, off, drp, tr). unat c - unat i))" by simp
next
  fix cacheSize i offset :: u64
  assume "i < cacheSize \<and> cacheSize \<le> offset"
  then have "unat cacheSize - unat (i + 1) < unat cacheSize - unat i" by unat_arith
  then show "\<And>n d drp tr d' drp' tr'.
      ((cacheSize, n, i + 1, d', offset - 1, drp', tr'), cacheSize, n, i, d, offset, drp, tr)
        \<in> measure (\<lambda>(c, n, i, d, off, drp, tr). unat c - unat i)"
    by simp
qed

text \<open>The bulk advance after the forced flush (\<^verbatim>\<open>if offset >= cacheSize\<close>).\<close>

definition bulk ::
  "u64 \<Rightarrow> tridentDispatcher \<Rightarrow> u64 \<Rightarrow> u64 \<Rightarrow> tridentDispatcher \<times> u64 \<times> u64"
where
  "bulk cacheSize d offset drp =
     (if offset \<ge> cacheSize then
        let gap = offset - cacheSize + 1
        in (d\<lparr>seq := seq d + gap,
               startIndex := (startIndex d + gap) AND (cacheSize - 1)\<rparr>,
            offset - gap, drp + gap)
      else (d, offset, drp))"

text \<open>
  The backward walk that stamps the slots of the packets still missing
  (\<^verbatim>\<open>for i := current; i != dispatcher.startIndex; { ... }\<close>). The loop has no
  counter: \<open>None\<close> is a panic or a walk that never reaches \<^verbatim>\<open>startIndex\<close>.
\<close>

partial_function (option) stamp ::
  "u64 \<Rightarrow> u64 \<Rightarrow> u64 \<Rightarrow> tridentDispatcher \<Rightarrow> tridentDispatcher option"
where
  "stamp cacheSize ts i d =
     (if i \<noteq> startIndex d then
        (let i' = (i - 1) AND (cacheSize - 1) in
         do {
           c \<leftarrow> rd (cache d) i';
           (case c of
              Some q \<Rightarrow> Some d
            | None \<Rightarrow> do {
                tss \<leftarrow> wr (timestamp d) i' ts;
                stamp cacheSize ts i' (d\<lparr>timestamp := tss\<rparr>)
              })
         })
      else Some d)"

declare stamp.simps [code]

text \<open>
  The in-order flush (\<^verbatim>\<open>for i := uint64(0); i < cacheSize; i++\<close>); \<open>ts\<close> is the
  timestamp of the packet being inserted. The subtraction wraps and the comparison
  is the signed one of \<^verbatim>\<open>time.Duration\<close>.
\<close>

function flush ::
  "u64 \<Rightarrow> nat \<Rightarrow> u64 \<Rightarrow> u64 \<Rightarrow> tridentDispatcher \<Rightarrow> u64 \<Rightarrow> event list
     \<Rightarrow> (tridentDispatcher \<times> u64 \<times> event list) option"
where
  "flush cacheSize nslaves ts i d drp tr =
     (if i < cacheSize then
        do {
          c \<leftarrow> rd (cache d) (startIndex d);
          (case c of
             Some q \<Rightarrow> do {
               e \<leftarrow> put nslaves q;
               cs \<leftarrow> wr (cache d) (startIndex d) None;
               tss \<leftarrow> wr (timestamp d) i 0;
               flush cacheSize nslaves ts (i + 1)
                 (d\<lparr>cache := cs, timestamp := tss, seq := seq d + 1,
                    startIndex := (startIndex d + 1) AND (cacheSize - 1)\<rparr>)
                 drp (tr @ [e])
             }
           | None \<Rightarrow> do {
               t \<leftarrow> rd (timestamp d) (startIndex d);
               if t = 0 then Some (d, drp, tr)
               else if TRIDENT_TIMEOUT <s ts - t then do {
                 tss \<leftarrow> wr (timestamp d) i 0;
                 flush cacheSize nslaves ts (i + 1)
                   (d\<lparr>timestamp := tss, seq := seq d + 1,
                      startIndex := (startIndex d + 1) AND (cacheSize - 1)\<rparr>)
                   (drp + 1) tr
               }
               else Some (d, drp, tr)
             })
        }
      else Some (d, drp, tr))"
  by pat_completeness auto

termination flush
proof (relation "measure (\<lambda>(c, n, ts, i, d, drp, tr). unat c - unat i)")
  show "wf (measure (\<lambda>(c, n, ts, i, d, drp, tr). unat c - unat i))" by simp
next
  fix cacheSize i :: u64
  assume "i < cacheSize"
  then have "unat cacheSize - unat (i + 1) < unat cacheSize - unat i" by unat_arith
  then show "\<And>n ts d drp tr d' tr'.
      ((cacheSize, n, ts, i + 1, d', drp, tr'), cacheSize, n, ts, i, d, drp, tr)
        \<in> measure (\<lambda>(c, n, ts, i, d, drp, tr). unat c - unat i)"
    by simp
next
  fix cacheSize i :: u64
  assume "i < cacheSize"
  then have "unat cacheSize - unat (i + 1) < unat cacheSize - unat i" by unat_arith
  then show "\<And>n ts d drp tr d'.
      ((cacheSize, n, ts, i + 1, d', drp + 1, tr), cacheSize, n, ts, i, d, drp, tr)
        \<in> measure (\<lambda>(c, n, ts, i, d, drp, tr). unat c - unat i)"
    by simp
qed

text \<open>
  \<^verbatim>\<open>cacheLookup(dispatcher, packet, cacheSize, slaves)\<close>. The result is the
  dispatcher after the call, the two returned counts and the events of the call.
\<close>

definition cacheLookup ::
  "tridentDispatcher \<Rightarrow> packetBuffer \<Rightarrow> u64 \<Rightarrow> nat
     \<Rightarrow> (tridentDispatcher \<times> u64 \<times> u64 \<times> event list) option"
where
  "cacheLookup dispatcher packet cacheSize nslaves =
     (let sq = pkt_seq packet;
          ts = pkt_timestamp packet;
          d0 = (if seq dispatcher = 0 then dispatcher\<lparr>seq := sq\<rparr> else dispatcher)
      in
        if sq < seq d0 \<and> \<not> maxTimestamp d0 <s ts then
          Some (d0, 0, 1, [Release packet])
        else do {
          (d1, tr1) \<leftarrow>
            (if sq < seq d0 then do {
               (dp, trp) \<leftarrow> purge cacheSize 0 d0 [];
               Some (dp\<lparr>seq := (if cacheSize < sq then sq - cacheSize else 1),
                        startIndex := 0\<rparr>, trp)
             }
             else Some (d0, []));
          let d2 = (if maxTimestamp d1 <s ts then d1\<lparr>maxTimestamp := ts\<rparr> else d1);
          let offset = sq - seq d2;
          (d3, offset3, drp3, tr3) \<leftarrow> forced cacheSize nslaves 0 d2 offset 0 tr1;
          let (d4, offset4, drp4) = bulk cacheSize d3 offset3 drp3;
          let current = (startIndex d4 + offset4) AND (cacheSize - 1);
          cs \<leftarrow> wr (cache d4) current (Some packet);
          tss \<leftarrow> wr (timestamp d4) current ts;
          d6 \<leftarrow> stamp cacheSize ts current (d4\<lparr>cache := cs, timestamp := tss\<rparr>);
          (d7, drp7, tr7) \<leftarrow> flush cacheSize nslaves ts 0 d6 drp4 tr3;
          Some (if 0 < drp7 then d7\<lparr>dropped := dropped d7 + drp7\<rparr> else d7, drp7, 0, tr7)
        })"

text \<open>
  The first part of \<^verbatim>\<open>cacheLookup\<close> for a packet that passes the stale test, up to the
  backward walk: the window, the local \<^verbatim>\<open>dropped\<close> and the events with which the call
  enters its in-order flush.
\<close>

definition flushEntry ::
  "tridentDispatcher \<Rightarrow> packetBuffer \<Rightarrow> u64 \<Rightarrow> nat
     \<Rightarrow> (tridentDispatcher \<times> u64 \<times> event list) option"
where
  "flushEntry dispatcher packet cacheSize nslaves =
     (let sq = pkt_seq packet;
          ts = pkt_timestamp packet;
          d0 = (if seq dispatcher = 0 then dispatcher\<lparr>seq := sq\<rparr> else dispatcher)
      in do {
          (d1, tr1) \<leftarrow>
            (if sq < seq d0 then do {
               (dp, trp) \<leftarrow> purge cacheSize 0 d0 [];
               Some (dp\<lparr>seq := (if cacheSize < sq then sq - cacheSize else 1),
                        startIndex := 0\<rparr>, trp)
             }
             else Some (d0, []));
          let d2 = (if maxTimestamp d1 <s ts then d1\<lparr>maxTimestamp := ts\<rparr> else d1);
          let offset = sq - seq d2;
          (d3, offset3, drp3, tr3) \<leftarrow> forced cacheSize nslaves 0 d2 offset 0 tr1;
          let (d4, offset4, drp4) = bulk cacheSize d3 offset3 drp3;
          let current = (startIndex d4 + offset4) AND (cacheSize - 1);
          cs \<leftarrow> wr (cache d4) current (Some packet);
          tss \<leftarrow> wr (timestamp d4) current ts;
          d6 \<leftarrow> stamp cacheSize ts current (d4\<lparr>cache := cs, timestamp := tss\<rparr>);
          Some (d6, drp4, tr3)
        })"

text \<open>
  The window that \<^verbatim>\<open>findAndAdd\<close> hands to the first call: the zero value of the struct
  with both slices made (\<^verbatim>\<open>make([]*packetBuffer, a.cacheSize)\<close>).
\<close>

definition zeroDispatcher :: tridentDispatcher where
  "zeroDispatcher =
     \<lparr>cache = [], timestamp = [], maxTimestamp = 0, dropped = 0, seq = 0, startIndex = 0\<rparr>"

definition makeSlices :: "u64 \<Rightarrow> tridentDispatcher \<Rightarrow> tridentDispatcher" where
  "makeSlices cacheSize d =
     d\<lparr>cache := replicate (unat cacheSize) None, timestamp := replicate (unat cacheSize) 0\<rparr>"

definition newDispatcher :: "u64 \<Rightarrow> tridentDispatcher" where
  "newDispatcher cacheSize = makeSlices cacheSize zeroDispatcher"

text \<open>
  Successive calls of \<^verbatim>\<open>cacheLookup\<close> on one window, as the receive loop makes them
  for one (sender, dispatcher): the window after the last call, the sums of the two
  returned counts and the events of all calls in order.
\<close>

fun feed ::
  "u64 \<Rightarrow> nat \<Rightarrow> tridentDispatcher \<Rightarrow> packetBuffer list
     \<Rightarrow> (tridentDispatcher \<times> u64 \<times> u64 \<times> event list) option"
where
  "feed C n d [] = Some (d, 0, 0, [])"
| "feed C n d (p # ps) =
     do {
       (d1, drp1, ex1, tr1) \<leftarrow> cacheLookup d p C n;
       (d2, drp2, ex2, tr2) \<leftarrow> feed C n d1 ps;
       Some (d2, drp1 + drp2, ex1 + ex2, tr1 @ tr2)
     }"

text \<open>The packets put on the slave queues, in the order of the puts.\<close>

fun delivered :: "event list \<Rightarrow> packetBuffer list" where
  "delivered [] = []"
| "delivered (Put k p # es) = p # delivered es"
| "delivered (Release p # es) = delivered es"

fun released :: "event list \<Rightarrow> packetBuffer list" where
  "released [] = []"
| "released (Put k p # es) = released es"
| "released (Release p # es) = p # released es"

section \<open>The adapter\<close>

record PacketCounter =
  RxPackets :: u64
  RxDropped :: u64
  RxErrors :: u64
  RxExpired :: u64

text \<open>
  The fields of \<^verbatim>\<open>TridentAdapter\<close> that \<^verbatim>\<open>findAndAdd\<close> and \<^verbatim>\<open>run\<close> use. A
  \<^verbatim>\<open>tridentInstance\<close> is its array of 16 dispatchers; \<open>nslaves\<close> is \<^verbatim>\<open>len(a.slaves)\<close>;
  \<open>events\<close> collects what the calls of \<^verbatim>\<open>cacheLookup\<close> and \<^verbatim>\<open>run\<close> put and release.
\<close>

record TridentAdapter =
  cacheSize :: u64
  instances :: "u32 \<rightharpoonup> tridentDispatcher list"
  nslaves :: nat
  counter :: PacketCounter
  stats :: PacketCounter
  events :: "event list"

definition zeroCounter :: PacketCounter where
  "zeroCounter = \<lparr>RxPackets = 0, RxDropped = 0, RxErrors = 0, RxExpired = 0\<rparr>"

text \<open>
  \<^verbatim>\<open>NewTridentAdapter\<close> when the listener opens, for \<open>len(queues) = nqueues\<close>. The
  slice of slaves has that length; the loop that fills it counts in uint8
  (\<^verbatim>\<open>slaveCount\<close>), so it fills all of it when there are fewer than 256 queues.
\<close>

definition NewTridentAdapter :: "nat \<Rightarrow> u32 \<Rightarrow> TridentAdapter" where
  "NewTridentAdapter nqueues sz =
     \<lparr>cacheSize = ucast (minPowerOfTwo sz), instances = Map.empty, nslaves = nqueues,
      counter = zeroCounter, stats = zeroCounter, events = []\<rparr>"

definition countPacket :: "PacketCounter \<Rightarrow> u64 \<Rightarrow> u64 \<Rightarrow> PacketCounter" where
  "countPacket c rxDropped rxExpired =
     c\<lparr>RxPackets := RxPackets c + 1, RxDropped := RxDropped c + rxDropped,
       RxExpired := RxExpired c + rxExpired\<rparr>"

text \<open>
  \<^verbatim>\<open>findAndAdd\<close>. A nil slice is the empty list (\<^verbatim>\<open>a.cacheSize\<close> is at least 1, so a
  made slice is never empty); indexing the array of dispatchers outside 0..15 panics.
\<close>

definition findAndAdd :: "TridentAdapter \<Rightarrow> packetBuffer \<Rightarrow> TridentAdapter option" where
  "findAndAdd a packet =
     (let index = unat (tridentDispatcherIndex packet) in
      if TRIDENT_DISPATCHER_MAX \<le> index then None
      else
        let instance = (case instances a (tridentIp packet) of
                None \<Rightarrow> (replicate TRIDENT_DISPATCHER_MAX zeroDispatcher)
                           [index := makeSlices (cacheSize a) zeroDispatcher]
              | Some inst \<Rightarrow> inst);
            d = instance ! index;
            dispatcher = (if cache d = [] then makeSlices (cacheSize a) d else d)
        in do {
          (d', rxDropped, rxExpired, tr) \<leftarrow>
             cacheLookup dispatcher packet (cacheSize a) (nslaves a);
          Some (a\<lparr>instances := (instances a)(tridentIp packet \<mapsto> instance[index := d']),
                  counter := countPacket (counter a) rxDropped rxExpired,
                  stats := countPacket (stats a) rxDropped rxExpired,
                  events := events a @ tr\<rparr>)
        })"

text \<open>
  The second loop of \<^verbatim>\<open>run\<close> on one datagram: \<open>invalid\<close> is the verdict of
  \<^verbatim>\<open>DecodeHeader\<close>, whose code is not part of this development.
\<close>

definition process :: "TridentAdapter \<Rightarrow> bool \<times> packetBuffer \<Rightarrow> TridentAdapter option" where
  "process a x =
     (case x of (invalid, packet) \<Rightarrow>
        if invalid then
          Some (a\<lparr>counter := (counter a)\<lparr>RxErrors := RxErrors (counter a) + 1\<rparr>,
                  stats := (stats a)\<lparr>RxErrors := RxErrors (stats a) + 1\<rparr>,
                  events := events a @ [Release packet]\<rparr>)
        else findAndAdd a (calcHash packet))"

fun run :: "TridentAdapter \<Rightarrow> (bool \<times> packetBuffer) list \<Rightarrow> TridentAdapter option" where
  "run a [] = Some a"
| "run a (x # xs) = do { a' \<leftarrow> process a x; run a' xs }"

section \<open>Tunnel decapsulation\<close>

datatype TunnelType = TUNNEL_TYPE_NONE | TUNNEL_TYPE_ERSPAN | TUNNEL_TYPE_VXLAN

record TunnelInfo =
  Src :: u32
  Dst :: u32
  TunnelId :: u32
  Type :: TunnelType

definition be16 :: "u8 list \<Rightarrow> nat \<Rightarrow> 16 word" where
  "be16 bs i = push_bit 8 (ucast (bs ! i)) OR ucast (bs ! (i + 1))"

definition be32 :: "u8 list \<Rightarrow> nat \<Rightarrow> u32" where
  "be32 bs i =
     push_bit 24 (ucast (bs ! i)) OR push_bit 16 (ucast (bs ! (i + 1)))
       OR push_bit 8 (ucast (bs ! (i + 2))) OR ucast (bs ! (i + 3))"

definition noTunnel :: TunnelInfo where
  "noTunnel = \<lparr>Src = 0, Dst = 0, TunnelId = 0, Type = TUNNEL_TYPE_NONE\<rparr>"

text \<open>
  Modelled from the spec: \<^verbatim>\<open>TunnelInfo.Decapsulate\<close>, whose code is not among the sources
  (only its tests are). The slice starts at the outer IPv4 header, taken as 20 bytes
  long as the fixed offsets of the spec do: protocol at byte 9, source at 12,
  destination at 16, the GRE base header at 20 with its protocol type at 22, the
  ERSPAN shim at 24 (8 bytes for Type II, 12 for Type III), the UDP destination port
  at 22, the VXLAN flags at 28 and the VNI at 32. A slice too short for the headers
  it announces gives \<open>TUNNEL_TYPE_NONE\<close>.
\<close>

definition Decapsulate :: "u8 list \<Rightarrow> TunnelInfo" where
  "Decapsulate bs =
     (if length bs < 20 then noTunnel
      else if bs ! 9 = 47 then
        (if length bs < 24 then noTunnel
         else if be16 bs 22 = 0x88BE then
           (if length bs < 32 then noTunnel
            else \<lparr>Src = be32 bs 12, Dst = be32 bs 16,
                  TunnelId = ucast (be16 bs 24 AND 0x3FF), Type = TUNNEL_TYPE_ERSPAN\<rparr>)
         else if be16 bs 22 = 0x22EB then
           (if length bs < 36 then noTunnel
            else \<lparr>Src = be32 bs 12, Dst = be32 bs 16,
                  TunnelId = 0, Type = TUNNEL_TYPE_ERSPAN\<rparr>)
         else noTunnel)
      else if bs ! 9 = 17 then
        (if length bs < 36 then noTunnel
         else if be16 bs 22 = 4789 \<and> bs ! 28 AND 0x08 \<noteq> 0 then
           \<lparr>Src = be32 bs 12, Dst = be32 bs 16,
             TunnelId = drop_bit 8 (be32 bs 32), Type = TUNNEL_TYPE_VXLAN\<rparr>
         else noTunnel)
      else noTunnel)"

section \<open>Well-formed windows\<close>

text \<open>The cache size is a power of two, as \<^verbatim>\<open>minPowerOfTwo\<close> makes it.\<close>

definition pow2 :: "u64 \<Rightarrow> bool" where
  "pow2 C \<longleftrightarrow> (\<exists>k\<in>{0..<64}. C = 2 ^ k)"

text \<open>
  Both slices have the length \<^verbatim>\<open>cacheSize\<close> and the head of the ring is inside them:
  what \<^verbatim>\<open>findAndAdd\<close> sets up.
\<close>

definition sized :: "u64 \<Rightarrow> tridentDispatcher \<Rightarrow> bool" where
  "sized C d \<longleftrightarrow>
     pow2 C \<and> length (cache d) = unat C \<and> length (timestamp d) = unat C \<and> startIndex d < C"

definition slaveOf :: "nat \<Rightarrow> packetBuffer \<Rightarrow> u8" where
  "slaveOf n p = hash p AND word_of_int (int n - 1)"

text \<open>
  One step of a window-advancing loop whose counter is \<open>i\<close>: the head slot is emptied,
  \<^verbatim>\<open>dispatcher.timestamp[i]\<close> is zeroed, the head moves on.
\<close>

definition advance :: "u64 \<Rightarrow> u64 \<Rightarrow> tridentDispatcher \<Rightarrow> tridentDispatcher" where
  "advance C i d =
     d\<lparr>cache := (cache d)[unat (startIndex d) := None],
       timestamp := (timestamp d)[unat i := 0],
       seq := seq d + 1,
       startIndex := (startIndex d + 1) AND (C - 1)\<rparr>"

text \<open>A packet with the given sequence number and timestamp, for the examples.\<close>

definition pk :: "u64 \<Rightarrow> u64 \<Rightarrow> packetBuffer" where
  "pk s t = \<lparr>tridentIp = 0, tridentDispatcherIndex = 0, pkt_seq = s, pkt_timestamp = t, hash = 0\<rparr>"

text \<open>The packets held in a list of slots, in slot order.\<close>

fun somes :: "'a option list \<Rightarrow> 'a list" where
  "somes [] = []"
| "somes (None # xs) = somes xs"
| "somes (Some x # xs) = x # somes xs"

section \<open>The branches of cacheLookup\<close>

text \<open>The window after the seeding step (\<^verbatim>\<open>if dispatcher.seq == 0\<close>).\<close>

definition seed :: "tridentDispatcher \<Rightarrow> packetBuffer \<Rightarrow> tridentDispatcher" where
  "seed d p = (if seq d = 0 then d\<lparr>seq := pkt_seq p\<rparr> else d)"

text \<open>
  The two backward branches, by the conditions of the source: the sequence number is
  below the start of the (seeded) window, and the timestamp is above \<^verbatim>\<open>maxTimestamp\<close>
  (restart) or not (stale reorder).
\<close>

definition restarts :: "tridentDispatcher \<Rightarrow> packetBuffer \<Rightarrow> bool" where
  "restarts d p \<longleftrightarrow> pkt_seq p < seq (seed d p) \<and> maxTimestamp d <s pkt_timestamp p"

definition stale :: "tridentDispatcher \<Rightarrow> packetBuffer \<Rightarrow> bool" where
  "stale d p \<longleftrightarrow> pkt_seq p < seq (seed d p) \<and> \<not> maxTimestamp d <s pkt_timestamp p"

text \<open>The window when the restart branch has run.\<close>

definition purged :: "u64 \<Rightarrow> tridentDispatcher \<Rightarrow> packetBuffer \<Rightarrow> tridentDispatcher" where
  "purged C d p =
     d\<lparr>cache := replicate (unat C) None, timestamp := replicate (unat C) 0,
       seq := (if C < pkt_seq p then pkt_seq p - C else 1), startIndex := 0\<rparr>"

text \<open>The window on entering the forced flush, \<^verbatim>\<open>maxTimestamp\<close> updated.\<close>

definition entered :: "u64 \<Rightarrow> tridentDispatcher \<Rightarrow> packetBuffer \<Rightarrow> tridentDispatcher" where
  "entered C d p =
     (let d1 = (if restarts d p then purged C (seed d p) p else seed d p)
      in if maxTimestamp d1 <s pkt_timestamp p then d1\<lparr>maxTimestamp := pkt_timestamp p\<rparr>
         else d1)"

text \<open>The window with the packet stored at its offset.\<close>

definition placed :: "u64 \<Rightarrow> tridentDispatcher \<Rightarrow> u64 \<Rightarrow> packetBuffer \<Rightarrow> tridentDispatcher" where
  "placed C d off p =
     d\<lparr>cache := (cache d)[unat ((startIndex d + off) AND (C - 1)) := Some p],
       timestamp := (timestamp d)[unat ((startIndex d + off) AND (C - 1)) := pkt_timestamp p]\<rparr>"

definition finish :: "tridentDispatcher \<Rightarrow> u64 \<Rightarrow> tridentDispatcher" where
  "finish d drp = (if 0 < drp then d\<lparr>dropped := dropped d + drp\<rparr> else d)"


section \<open>Invariants of the window\<close>

text \<open>The distance of slot \<open>j\<close> from the head of the ring.\<close>

definition slotOff :: "u64 \<Rightarrow> tridentDispatcher \<Rightarrow> u64 \<Rightarrow> u64" where
  "slotOff C d j = (j - startIndex d) AND (C - 1)"

text \<open>
  Every cached packet sits at the slot of its sequence number, and the sequence numbers
  of the slots behind the head do not run past \<open>2 ^ 64\<close> by more than the one that
  wraps to 0.
\<close>

definition slots :: "u64 \<Rightarrow> tridentDispatcher \<Rightarrow> bool" where
  "slots C d \<longleftrightarrow>
     (\<forall>j<C. \<forall>q. cache d ! unat j = Some q \<longrightarrow>
        pkt_seq q = seq d + slotOff C d j \<and> unat (seq d) + unat (slotOff C d j) \<le> 2 ^ 64)"

text \<open>A window whose start is 0 holds a packet at most at its head.\<close>

definition lone :: "u64 \<Rightarrow> tridentDispatcher \<Rightarrow> bool" where
  "lone C d \<longleftrightarrow> (seq d = 0 \<longrightarrow> (\<forall>j<C. j \<noteq> startIndex d \<longrightarrow> cache d ! unat j = None))"

text \<open>The \<open>i\<close> slots a loop has advanced over are empty.\<close>

definition passed :: "u64 \<Rightarrow> u64 \<Rightarrow> tridentDispatcher \<Rightarrow> bool" where
  "passed C i d \<longleftrightarrow> (\<forall>j<C. C - i \<le> slotOff C d j \<longrightarrow> cache d ! unat j = None)"

text \<open>
  The offset a loop carries is the distance from the start of the window to the
  sequence number \<open>s\<close> being inserted.
\<close>

definition aimed :: "u64 \<Rightarrow> tridentDispatcher \<Rightarrow> u64 \<Rightarrow> bool" where
  "aimed s d x \<longleftrightarrow>
     seq d + x = s \<and> unat (seq d) + unat x \<le> 2 ^ 64 \<and> (seq d = 0 \<longrightarrow> x = 0)"

text \<open>The invariant of a window between calls.\<close>

definition inv :: "u64 \<Rightarrow> tridentDispatcher \<Rightarrow> bool" where
  "inv C d \<longleftrightarrow>
     sized C d \<and> slots C d \<and> lone C d \<and> cache d ! unat (startIndex d) = None"

text \<open>
  Well-formedness as the specification states it: the head index is inside the ring,
  the head slot is empty, and the packet in slot \<open>i\<close> has the sequence number
  \<open>start_seq + ((i - start_index) mod C)\<close>.
\<close>

definition wellformed :: "u64 \<Rightarrow> tridentDispatcher \<Rightarrow> bool" where
  "wellformed C d \<longleftrightarrow>
     startIndex d < C \<and> cache d ! unat (startIndex d) = None \<and>
     (\<forall>i\<in>{0..<unat C}.
        case cache d ! i of
          None \<Rightarrow> True
        | Some q \<Rightarrow> pkt_seq q = seq d + (of_nat i - startIndex d) mod C)"


text \<open>
  The packets put so far have strictly increasing sequence numbers, none below \<open>lo\<close>
  and all below the start of the window.
\<close>

definition rising :: "nat \<Rightarrow> event list \<Rightarrow> tridentDispatcher \<Rightarrow> bool" where
  "rising lo tr d \<longleftrightarrow>
     sorted_wrt (<) (map (\<lambda>q. unat (pkt_seq q)) (delivered tr)) \<and>
     (\<forall>q\<in>set (delivered tr). lo \<le> unat (pkt_seq q) \<and> unat (pkt_seq q) < unat (seq d)) \<and>
     lo \<le> unat (seq d)"

text \<open>
  Where the packets of a call come from: what is delivered or still cached after the
  loops was cached before them; the loops release nothing.
\<close>

definition sourced :: "packetBuffer set \<Rightarrow> packetBuffer list \<Rightarrow> event list \<Rightarrow> tridentDispatcher \<Rightarrow> bool" where
  "sourced S R tr d \<longleftrightarrow>
     set (delivered tr) \<union> set (somes (cache d)) \<subseteq> S \<and> released tr = R"

section \<open>Invariants of the adapter\<close>

text \<open>The number of packets held in the caches of all windows of the adapter.\<close>

definition heldIn :: "tridentDispatcher list \<Rightarrow> nat" where
  "heldIn inst = sum_list (map (\<lambda>d. length (somes (cache d))) inst)"

definition held :: "TridentAdapter \<Rightarrow> nat" where
  "held a = (\<Sum>ip\<in>dom (instances a). heldIn (the (instances a ip)))"

text \<open>
  The cache size is a power of two, there is a slave queue, and every window of every
  instance is either untouched (the zero value, slices nil) or has its slices made.
\<close>

definition adapterInv :: "TridentAdapter \<Rightarrow> bool" where
  "adapterInv a \<longleftrightarrow>
     pow2 (cacheSize a) \<and> 0 < nslaves a \<and> finite (dom (instances a)) \<and>
     (\<forall>inst\<in>ran (instances a).
        length inst = TRIDENT_DISPATCHER_MAX \<and>
        (\<forall>d\<in>set inst. d = zeroDispatcher \<or> sized (cacheSize a) d))"

text \<open>
  Every received packet is counted once in \<open>RxPackets\<close>; it is then expired, held in a
  cache, delivered, or gone (overwritten or dropped).
\<close>

definition balanced :: "TridentAdapter \<Rightarrow> bool" where
  "balanced a \<longleftrightarrow>
     unat (RxExpired (counter a)) + length (delivered (events a)) + held a
       \<le> unat (RxPackets (counter a))"

text \<open>The packets cached and delivered are at most \<open>K\<close>.\<close>

definition counted :: "nat \<Rightarrow> event list \<Rightarrow> tridentDispatcher \<Rightarrow> bool" where
  "counted K tr d \<longleftrightarrow> length (somes (cache d)) + length (delivered tr) \<le> K"

section \<open>Reordering within the window\<close>




text \<open>
  The in-order flush, run from the counter \<open>i\<close> on the window \<open>d\<close> for a packet with
  the timestamp \<open>ts\<close>, times out a slot: after its delivering steps it finds the head
  slot empty with a timestamp that is not 0 and
  \<^verbatim>\<open>timestamp-dispatcher.timestamp[dispatcher.startIndex] > TRIDENT_TIMEOUT\<close>.
\<close>

function expires :: "u64 \<Rightarrow> u64 \<Rightarrow> u64 \<Rightarrow> tridentDispatcher \<Rightarrow> bool" where
  "expires C ts i d =
     (if i < C then
        (case rd (cache d) (startIndex d) of
           Some (Some q) \<Rightarrow> expires C ts (i + 1) (advance C i d)
         | Some None \<Rightarrow>
             (case rd (timestamp d) (startIndex d) of
                Some t \<Rightarrow> t \<noteq> 0 \<and> TRIDENT_TIMEOUT <s ts - t
              | None \<Rightarrow> False)
         | None \<Rightarrow> False)
      else False)"
  by pat_completeness auto

termination expires
proof (relation "measure (\<lambda>(c, ts, i, d). unat c - unat i)")
  show "wf (measure (\<lambda>(c, ts, i, d). unat c - unat i))" by simp
next
  fix C i :: u64
  assume "i < C"
  then have "unat C - unat (i + 1) < unat C - unat i" by unat_arith
  then show "\<And>ts d. ((C, ts, i + 1, advance C i d), C, ts, i, d)
        \<in> measure (\<lambda>(c, ts, i, d). unat c - unat i)"
    by simp
qed

text \<open>The call of \<^verbatim>\<open>cacheLookup\<close> on \<open>d\<close> with \<open>p\<close> times out a slot.\<close>

definition timesOut :: "tridentDispatcher \<Rightarrow> packetBuffer \<Rightarrow> u64 \<Rightarrow> nat \<Rightarrow> bool" where
  "timesOut d p C n \<longleftrightarrow>
     \<not> stale d p \<and>
     (case flushEntry d p C n of
        None \<Rightarrow> False
      | Some (d6, drp, tr) \<Rightarrow> expires C (pkt_timestamp p) 0 d6)"

text \<open>
  No call of a run of calls times out a slot (the run stops counting at a call that
  would panic).
\<close>

fun timeoutFree :: "u64 \<Rightarrow> nat \<Rightarrow> tridentDispatcher \<Rightarrow> packetBuffer list \<Rightarrow> bool" where
  "timeoutFree C n d [] = True"
| "timeoutFree C n d (p # ps) =
     (\<not> timesOut d p C n \<and>
      (case cacheLookup d p C n of
         None \<Rightarrow> False
       | Some (d', drp, ex, tr) \<Rightarrow> timeoutFree C n d' ps))"


declare purge.simps [simp del] forced.simps [simp del] flush.simps [simp del]
  expires.simps [simp del]

section \<open>Basic facts\<close>

lemma pow2E:
  assumes "pow2 C"
  obtains k where "k < 64" "C = 2 ^ k" "C - 1 = mask k"
  using assms by (auto simp: pow2_def mask_eq_exp_minus_1)

lemma pow2_pos: "pow2 C \<Longrightarrow> 0 < C"
  by (erule pow2E) (simp add: word_gt_0)

lemma mask_lt: "pow2 C \<Longrightarrow> x AND (C - 1) < C"
  by (erule pow2E) (simp add: and_mask_less')

lemma mask_id: "pow2 C \<Longrightarrow> x < C \<Longrightarrow> x AND (C - 1) = x"
  by (erule pow2E) (simp add: less_mask_eq)

lemma unat_inc_less: "(i::u64) < c \<Longrightarrow> unat (i + 1) = Suc (unat i)"
  by unat_arith

lemma put_Some: "0 < n \<Longrightarrow> put n q = Some (Put (slaveOf n q) q)"
proof -
  assume n: "0 < n"
  have "unat (hash q AND (word_of_int (int n - 1) :: u8)) \<le> unat (word_of_int (int n - 1) :: u8)"
    by (rule word_and_le1 [THEN word_le_nat_alt [THEN iffD1]])
  also have "unat (word_of_int (int n - 1) :: u8) = unat (of_nat (n - 1) :: u8)"
    using n by (simp add: of_nat_diff)
  also have "\<dots> \<le> n - 1" by (simp add: unat_of_nat)
  finally show ?thesis using n by (simp add: put_def slaveOf_def Let_def)
qed

lemma sized_advance: "sized C d \<Longrightarrow> sized C (advance C i d)"
  by (simp add: sized_def advance_def mask_lt)

lemma rd_in: "unat i < length xs \<Longrightarrow> rd xs i = Some (xs ! unat i)"
  by (simp add: rd_def)

lemma wr_in: "unat i < length xs \<Longrightarrow> wr xs i v = Some (xs[unat i := v])"
  by (simp add: wr_def)

lemma sized_si:
  "sized C d \<Longrightarrow> unat (startIndex d) < length (cache d)"
  "sized C d \<Longrightarrow> unat (startIndex d) < length (timestamp d)"
  by (simp_all add: sized_def word_less_nat_alt)

lemma sized_i:
  "sized C d \<Longrightarrow> i < C \<Longrightarrow> unat i < length (cache d)"
  "sized C d \<Longrightarrow> i < C \<Longrightarrow> unat i < length (timestamp d)"
  by (simp_all add: sized_def word_less_nat_alt)


section \<open>The loops, one step at a time\<close>

lemma flush_deliver:
  assumes "sized C d" "0 < n" "i < C" "cache d ! unat (startIndex d) = Some q"
  shows "flush C n ts i d drp tr =
         flush C n ts (i + 1) (advance C i d) drp (tr @ [Put (slaveOf n q) q])"
  using assms
  by (subst flush.simps) (simp add: rd_in wr_in sized_si sized_i put_Some advance_def)

lemma flush_expire:
  assumes "sized C d" "i < C" "cache d ! unat (startIndex d) = None"
    "timestamp d ! unat (startIndex d) \<noteq> 0"
    "TRIDENT_TIMEOUT <s ts - timestamp d ! unat (startIndex d)"
  shows "flush C n ts i d drp tr = flush C n ts (i + 1) (advance C i d) (drp + 1) tr"
proof -
  have "(cache d)[unat (startIndex d) := None] = cache d"
    using assms(3) by (metis list_update_id)
  then show ?thesis using assms
    by (subst flush.simps) (simp add: rd_in wr_in sized_si sized_i advance_def)
qed

lemma flush_stop:
  assumes "sized C d" "i < C" "cache d ! unat (startIndex d) = None"
    "timestamp d ! unat (startIndex d) = 0 \<or>
     \<not> TRIDENT_TIMEOUT <s ts - timestamp d ! unat (startIndex d)"
  shows "flush C n ts i d drp tr = Some (d, drp, tr)"
  using assms
  by (subst flush.simps) (auto simp add: rd_in wr_in sized_si sized_i)

lemma flush_end: "\<not> i < C \<Longrightarrow> flush C n ts i d drp tr = Some (d, drp, tr)"
  by (subst flush.simps) simp

text \<open>
  The invariant rule of the in-order flush: a property kept by a delivering step and
  by an expiring step holds when the loop ends, and the loop does end.
\<close>

lemma flush_rule:
  assumes "P i d drp tr" and "sized C d" and n: "0 < n" and "i \<le> C"
    and dl: "\<And>i d drp tr q. \<lbrakk>P i d drp tr; sized C d; i < C;
               cache d ! unat (startIndex d) = Some q\<rbrakk>
             \<Longrightarrow> P (i + 1) (advance C i d) drp (tr @ [Put (slaveOf n q) q])"
    and ex: "\<And>i d drp tr. \<lbrakk>P i d drp tr; sized C d; i < C;
               cache d ! unat (startIndex d) = None;
               timestamp d ! unat (startIndex d) \<noteq> 0;
               TRIDENT_TIMEOUT <s ts - timestamp d ! unat (startIndex d)\<rbrakk>
             \<Longrightarrow> P (i + 1) (advance C i d) (drp + 1) tr"
  shows "\<exists>i' d' drp' tr'. flush C n ts i d drp tr = Some (d', drp', tr') \<and>
           P i' d' drp' tr' \<and> sized C d' \<and> i' \<le> C \<and>
           (i' < C \<longrightarrow> cache d' ! unat (startIndex d') = None)"
  using assms(1,2,4)
proof (induction "unat C - unat i" arbitrary: i d drp tr)
  case 0
  then have "\<not> i < C" by (simp add: word_less_nat_alt)
  with 0 show ?case by (auto simp: flush_end)
next
  case (Suc m)
  then have iC: "i < C" by (simp add: word_less_nat_alt)
  then have i1: "i + 1 \<le> C" by (rule inc_le)
  have m: "m = unat C - unat (i + 1)" using Suc.hyps(2) iC by (simp add: unat_inc_less)
  show ?case
  proof (cases "cache d ! unat (startIndex d)")
    case (Some q)
    have "\<exists>i' d' drp' tr'. flush C n ts (i + 1) (advance C i d) drp (tr @ [Put (slaveOf n q) q])
            = Some (d', drp', tr') \<and> P i' d' drp' tr' \<and> sized C d' \<and> i' \<le> C \<and>
           (i' < C \<longrightarrow> cache d' ! unat (startIndex d') = None)"
      by (rule Suc.hyps(1) [OF m dl [OF Suc.prems(1,2) iC Some] sized_advance [OF Suc.prems(2)] i1])
    then show ?thesis by (simp add: flush_deliver [OF Suc.prems(2) n iC Some])
  next
    case None
    show ?thesis
    proof (cases "timestamp d ! unat (startIndex d) \<noteq> 0 \<and>
                  TRIDENT_TIMEOUT <s ts - timestamp d ! unat (startIndex d)")
      case True
      have "\<exists>i' d' drp' tr'. flush C n ts (i + 1) (advance C i d) (drp + 1) tr
            = Some (d', drp', tr') \<and> P i' d' drp' tr' \<and> sized C d' \<and> i' \<le> C \<and>
           (i' < C \<longrightarrow> cache d' ! unat (startIndex d') = None)"
        using True
        by (intro Suc.hyps(1) [OF m ex [OF Suc.prems(1,2) iC None] sized_advance [OF Suc.prems(2)] i1]) auto
      then show ?thesis using True by (simp add: flush_expire [OF Suc.prems(2) iC None])
    next
      case False
      then have "flush C n ts i d drp tr = Some (d, drp, tr)"
        by (intro flush_stop [OF Suc.prems(2) iC None]) auto
      then show ?thesis using Suc.prems iC None by auto
    qed
  qed
qed

lemma forced_deliver:
  assumes "sized C d" "0 < n" "i < C" "C \<le> offset" "cache d ! unat (startIndex d) = Some q"
  shows "forced C n i d offset drp tr =
         forced C n (i + 1) (advance C i d) (offset - 1) drp (tr @ [Put (slaveOf n q) q])"
  using assms
  by (subst forced.simps) (simp add: rd_in wr_in sized_si sized_i put_Some advance_def)

lemma forced_drop:
  assumes "sized C d" "i < C" "C \<le> offset" "cache d ! unat (startIndex d) = None"
  shows "forced C n i d offset drp tr =
         forced C n (i + 1) (advance C i d) (offset - 1) (drp + 1) tr"
proof -
  have "(cache d)[unat (startIndex d) := None] = cache d"
    using assms(4) by (metis list_update_id)
  then show ?thesis using assms
    by (subst forced.simps) (simp add: rd_in wr_in sized_si sized_i advance_def)
qed

lemma forced_end:
  "\<not> (i < C \<and> C \<le> offset) \<Longrightarrow> forced C n i d offset drp tr = Some (d, offset, drp, tr)"
  by (subst forced.simps) auto

lemma forced_rule:
  assumes "P i d offset drp tr" and "sized C d" and n: "0 < n" and "i \<le> C"
    and dl: "\<And>i d offset drp tr q. \<lbrakk>P i d offset drp tr; sized C d; i < C; C \<le> offset;
               cache d ! unat (startIndex d) = Some q\<rbrakk>
             \<Longrightarrow> P (i + 1) (advance C i d) (offset - 1) drp (tr @ [Put (slaveOf n q) q])"
    and dr: "\<And>i d offset drp tr. \<lbrakk>P i d offset drp tr; sized C d; i < C; C \<le> offset;
               cache d ! unat (startIndex d) = None\<rbrakk>
             \<Longrightarrow> P (i + 1) (advance C i d) (offset - 1) (drp + 1) tr"
  shows "\<exists>i' d' offset' drp' tr'.
           forced C n i d offset drp tr = Some (d', offset', drp', tr') \<and>
           P i' d' offset' drp' tr' \<and> sized C d' \<and> i' \<le> C \<and> (i' = C \<or> offset' < C)"
  using assms(1,2,4)
proof (induction "unat C - unat i" arbitrary: i d offset drp tr)
  case 0
  then have "\<not> i < C" "i = C" by (simp_all add: word_less_nat_alt word_le_nat_alt word_unat_eq_iff)
  with 0 show ?case by (auto simp: forced_end)
next
  case (Suc m)
  then have iC: "i < C" by (simp add: word_less_nat_alt)
  then have i1: "i + 1 \<le> C" by (rule inc_le)
  have m: "m = unat C - unat (i + 1)" using Suc.hyps(2) iC by (simp add: unat_inc_less)
  show ?case
  proof (cases "C \<le> offset")
    case False
    then have "forced C n i d offset drp tr = Some (d, offset, drp, tr)"
      by (simp add: forced_end)
    then show ?thesis using Suc.prems False by auto
  next
    case off: True
    show ?thesis
    proof (cases "cache d ! unat (startIndex d)")
      case (Some q)
      have "\<exists>i' d' offset' drp' tr'.
           forced C n (i + 1) (advance C i d) (offset - 1) drp (tr @ [Put (slaveOf n q) q])
             = Some (d', offset', drp', tr') \<and>
           P i' d' offset' drp' tr' \<and> sized C d' \<and> i' \<le> C \<and> (i' = C \<or> offset' < C)"
        by (rule Suc.hyps(1) [OF m dl [OF Suc.prems(1,2) iC off Some]
              sized_advance [OF Suc.prems(2)] i1])
      then show ?thesis by (simp add: forced_deliver [OF Suc.prems(2) n iC off Some])
    next
      case None
      have "\<exists>i' d' offset' drp' tr'.
           forced C n (i + 1) (advance C i d) (offset - 1) (drp + 1) tr
             = Some (d', offset', drp', tr') \<and>
           P i' d' offset' drp' tr' \<and> sized C d' \<and> i' \<le> C \<and> (i' = C \<or> offset' < C)"
        by (rule Suc.hyps(1) [OF m dr [OF Suc.prems(1,2) iC off None]
              sized_advance [OF Suc.prems(2)] i1])
      then show ?thesis by (simp add: forced_drop [OF Suc.prems(2) iC off None])
    qed
  qed
qed

lemma somes_append: "somes (xs @ ys) = somes xs @ somes ys"
  by (induction xs rule: somes.induct) auto

lemma purge_result:
  assumes "length (cache d) = unat C" "length (timestamp d) = unat C" "i \<le> C"
  shows "purge C i d tr =
     Some (d\<lparr>cache := take (unat i) (cache d) @ replicate (unat C - unat i) None,
             timestamp := take (unat i) (timestamp d) @ replicate (unat C - unat i) 0\<rparr>,
           tr @ map Release (somes (drop (unat i) (cache d))))"
  using assms
proof (induction "unat C - unat i" arbitrary: i d tr)
  case 0
  then have "\<not> i < C" "unat i = unat C" by (simp_all add: word_less_nat_alt word_le_nat_alt)
  with 0 show ?case by (subst purge.simps) simp
next
  case (Suc m)
  then have iC: "i < C" by (simp add: word_less_nat_alt)
  then have i1: "i + 1 \<le> C" by (rule inc_le)
  have ui: "unat (i + 1) = Suc (unat i)" using iC by (rule unat_inc_less)
  have m: "m = unat C - unat (i + 1)" using Suc.hyps(2) ui by simp
  have il: "unat i < length (cache d)" "unat i < length (timestamp d)"
    using iC Suc.prems by (simp_all add: word_less_nat_alt)
  let ?d' = "d\<lparr>cache := (cache d)[unat i := None], timestamp := (timestamp d)[unat i := 0]\<rparr>"
  let ?tr' = "tr @ (case cache d ! unat i of Some q \<Rightarrow> [Release q] | None \<Rightarrow> [])"
  have step: "purge C i d tr = purge C (i + 1) ?d' ?tr'"
  proof (cases "cache d ! unat i")
    case None
    then have "(cache d)[unat i := None] = cache d" by (metis list_update_id)
    then show ?thesis using iC il None
      by (subst purge.simps) (simp add: rd_in wr_in)
  next
    case (Some q)
    then show ?thesis using iC il
      by (subst purge.simps) (simp add: rd_in wr_in)
  qed
  have IH: "purge C (i + 1) ?d' ?tr' =
     Some (?d'\<lparr>cache := take (unat (i + 1)) (cache ?d') @ replicate (unat C - unat (i + 1)) None,
             timestamp := take (unat (i + 1)) (timestamp ?d') @ replicate (unat C - unat (i + 1)) 0\<rparr>,
           ?tr' @ map Release (somes (drop (unat (i + 1)) (cache ?d'))))"
    by (rule Suc.hyps(1) [OF m]) (use Suc.prems i1 in simp_all)
  have c: "take (Suc (unat i)) ((cache d)[unat i := None]) @ replicate (unat C - Suc (unat i)) None
           = take (unat i) (cache d) @ replicate (unat C - unat i) None"
    using il Suc.prems(1) by (simp add: take_Suc_conv_app_nth replicate_append_same Suc_diff_Suc flip: replicate_Suc)
  have t: "take (Suc (unat i)) ((timestamp d)[unat i := 0]) @ replicate (unat C - Suc (unat i)) 0
           = take (unat i) (timestamp d) @ replicate (unat C - unat i) 0"
    using il Suc.prems(2) by (simp add: take_Suc_conv_app_nth replicate_append_same Suc_diff_Suc flip: replicate_Suc)
  have e: "(case cache d ! unat i of Some q \<Rightarrow> [Release q] | None \<Rightarrow> [])
             @ map Release (somes (drop (Suc (unat i)) (cache d)))
           = map Release (somes (drop (unat i) (cache d)))"
    using il(1) by (subst (2) Cons_nth_drop_Suc [symmetric]) (auto split: option.splits)
  show ?case
    unfolding step IH ui using c t e by simp
qed

section \<open>Ring indices\<close>

lemma idx_dec:
  assumes "pow2 C" "x AND (C - 1) \<noteq> 0"
  shows "(x - 1) AND (C - 1) = (x AND (C - 1)) - 1"
proof -
  from assms(1) obtain k where k: "k < 64" "C = 2 ^ k" "C - 1 = mask k" by (rule pow2E)
  let ?y = "x AND mask k"
  have y0: "?y \<noteq> 0" using assms(2) k by simp
  have "?y < 2 ^ k" using k by (simp add: and_mask_less')
  moreover have "?y - 1 < ?y" using y0 by (simp add: word_less_nat_alt unat_minus_one unat_gt_0)
  ultimately have "?y - 1 < 2 ^ k" by simp
  then have "(?y - 1) AND mask k = ?y - 1" by (rule less_mask_eq)
  moreover have "(?y - 1) AND mask k = (x - 1) AND mask k" by (rule mask_eqs)
  ultimately show ?thesis using k by simp
qed

lemma idx_eq0:
  assumes "pow2 C" "j < C" "s < C" "(j - s) AND (C - 1) = 0"
  shows "j = s"
proof -
  from assms(1) obtain k where k: "k < 64" "C = 2 ^ k" "C - 1 = mask k" by (rule pow2E)
  have "j = j AND mask k" using assms(2) k by (simp add: less_mask_eq)
  also have "\<dots> = ((j - s) + s) AND mask k" by simp
  also have "\<dots> = (((j - s) AND mask k) + s) AND mask k" by (simp only: mask_eqs)
  also have "\<dots> = s AND mask k" using assms(4) k by simp
  also have "\<dots> = s" using assms(3) k by (simp add: less_mask_eq)
  finally show ?thesis .
qed

lemma off_advance:
  assumes "pow2 C" "j < C" "s < C" "j \<noteq> s"
  shows "(j - ((s + 1) AND (C - 1))) AND (C - 1) = ((j - s) AND (C - 1)) - 1"
proof -
  from assms(1) obtain k where k: "k < 64" "C = 2 ^ k" "C - 1 = mask k" by (rule pow2E)
  have nz: "(j - s) AND (C - 1) \<noteq> 0" using idx_eq0 [OF assms(1-3)] assms(4) by blast
  have "(j - ((s + 1) AND mask k)) AND mask k = (j - (s + 1)) AND mask k" by (rule mask_eqs)
  also have "j - (s + 1) = (j - s) - 1" by simp
  finally show ?thesis using idx_dec [OF assms(1) nz] k by simp
qed

lemma off_place:
  assumes "pow2 C" "off < C"
  shows "(((s + off) AND (C - 1)) - s) AND (C - 1) = off"
proof -
  from assms(1) obtain k where k: "k < 64" "C = 2 ^ k" "C - 1 = mask k" by (rule pow2E)
  have "(((s + off) AND mask k) - s) AND mask k = ((s + off) - s) AND mask k" by (rule mask_eqs)
  then show ?thesis using assms(2) k by (simp add: less_mask_eq)
qed

lemma unat_dec: "(x::u64) \<noteq> 0 \<Longrightarrow> unat (x - 1) = unat x - 1"
  by (simp add: unat_minus_one)

lemma stamp_result:
  assumes "sized C d" "i < C"
  shows "\<exists>tss. stamp C ts i d = Some (d\<lparr>timestamp := tss\<rparr>) \<and> length tss = unat C \<and>
           (\<forall>j<unat C. tss ! j = timestamp d ! j \<or> tss ! j = ts)"
  using assms
proof (induction "unat ((i - startIndex d) AND (C - 1))" arbitrary: i d)
  case 0
  then have p: "pow2 C" and s: "startIndex d < C" by (simp_all add: sized_def)
  from 0 have "(i - startIndex d) AND (C - 1) = 0" by (simp add: unat_eq_0)
  then have "i = startIndex d" using idx_eq0 [OF p "0.prems"(2) s] by simp
  then have "stamp C ts i d = Some d" by (subst stamp.simps) simp
  moreover have "d = d\<lparr>timestamp := timestamp d\<rparr>" by simp
  moreover have "length (timestamp d) = unat C" using "0.prems"(1) by (simp add: sized_def)
  ultimately show ?case by metis
next
  case (Suc m)
  then have p: "pow2 C" and s: "startIndex d < C" and lt: "length (timestamp d) = unat C"
    and lc: "length (cache d) = unat C"
    by (simp_all add: sized_def)
  let ?i = "(i - 1) AND (C - 1)"
  have nz: "(i - startIndex d) AND (C - 1) \<noteq> 0" using Suc.hyps(2) by auto
  then have ne: "i \<noteq> startIndex d" by auto
  have iC: "?i < C" using p by (rule mask_lt)
  then have il: "unat ?i < length (cache d)" "unat ?i < length (timestamp d)"
    using lt lc by (simp_all add: word_less_nat_alt)
  show ?case
  proof (cases "cache d ! unat ?i")
    case (Some q)
    then have "stamp C ts i d = Some d"
      using ne il by (subst stamp.simps) (simp add: rd_in Let_def)
    moreover have "d = d\<lparr>timestamp := timestamp d\<rparr>" by simp
    ultimately show ?thesis using lt by metis
  next
    case None
    let ?d = "d\<lparr>timestamp := (timestamp d)[unat ?i := ts]\<rparr>"
    have st: "stamp C ts i d = stamp C ts ?i ?d"
      using ne il None by (subst stamp.simps) (simp add: rd_in wr_in Let_def)
    have sz: "sized C ?d" using Suc.prems(1) by (simp add: sized_def)
    from p obtain k where k: "k < 64" "C = 2 ^ k" "C - 1 = mask k" by (rule pow2E)
    have "(?i - startIndex d) AND (C - 1) = ((i - 1) - startIndex d) AND (C - 1)"
      unfolding k(3) by (rule mask_eqs)
    also have "(i - 1) - startIndex d = (i - startIndex d) - 1" by simp
    also have "((i - startIndex d) - 1) AND (C - 1) = ((i - startIndex d) AND (C - 1)) - 1"
      using p nz by (rule idx_dec)
    finally have "unat ((?i - startIndex ?d) AND (C - 1)) = m"
      using Suc.hyps(2) nz by (simp add: unat_dec)
    then have "m = unat ((?i - startIndex ?d) AND (C - 1))" by simp
    from Suc.hyps(1) [OF this sz iC]
    obtain tss where t: "stamp C ts ?i ?d = Some (?d\<lparr>timestamp := tss\<rparr>)"
       "length tss = unat C"
       "\<forall>j<unat C. tss ! j = timestamp ?d ! j \<or> tss ! j = ts" by blast
    have "\<forall>j<unat C. tss ! j = timestamp d ! j \<or> tss ! j = ts"
    proof (intro allI impI)
      fix j assume "j < unat C"
      with t(3) have "tss ! j = timestamp ?d ! j \<or> tss ! j = ts" by blast
      then show "tss ! j = timestamp d ! j \<or> tss ! j = ts"
        using il(2) by (cases "j = unat ?i") auto
    qed
    then show ?thesis using st t(1,2) by auto
  qed
qed

section \<open>The phases of a call\<close>

lemma cacheLookup_stale:
  "stale d p \<Longrightarrow> cacheLookup d p C n = Some (d, 0, 1, [Release p])"
  by (auto simp: stale_def seed_def cacheLookup_def Let_def split: if_splits)

lemma sized_seed: "sized C d \<Longrightarrow> sized C (seed d p)"
  by (simp add: sized_def seed_def)

lemma sized_purged: "pow2 C \<Longrightarrow> sized C (purged C d p)"
  by (simp add: sized_def purged_def pow2_pos)

lemma sized_maxTimestamp [simp]: "sized C (d\<lparr>maxTimestamp := t\<rparr>) = sized C d"
  by (simp add: sized_def)

lemma sized_entered:
  assumes "sized C d"
  shows "sized C (entered C d p)"
proof -
  have "pow2 C" using assms by (simp add: sized_def)
  then show ?thesis
    by (simp add: entered_def Let_def sized_purged sized_seed [OF assms])
qed

lemma purge_all:
  assumes "sized C d"
  shows "purge C 0 d [] =
     Some (d\<lparr>cache := replicate (unat C) None, timestamp := replicate (unat C) 0\<rparr>,
           map Release (somes (cache d)))"
  using purge_result [of d C 0 "[]"] assms by (simp add: sized_def)

lemma sized_bulk:
  assumes "sized C d" "bulk C d off drp = (d', off', drp')" "i = C \<or> off < C"
  shows "sized C d' \<and> off' < C"
proof (cases "C \<le> off")
  case True
  have "off - (off - C + 1) = C - 1" by simp
  moreover have "C - 1 < C" using assms(1) pow2_pos [of C]
    by (simp add: sized_def word_less_nat_alt unat_minus_one unat_gt_0 word_gt_0)
  ultimately show ?thesis using assms True
    by (auto simp: bulk_def Let_def sized_def mask_lt)
next
  case False
  then show ?thesis using assms by (auto simp: bulk_def)
qed

text \<open>
  Every call on a well-sized window returns: either through the stale branch or through
  the four phases, whose results this lemma names.
\<close>

lemma cacheLookup_accept:
  assumes sz: "sized C d" and n: "0 < n" and ns: "\<not> stale d p"
  shows "\<exists>d3 off3 drp3 tr3 d4 off4 drp4 d6 d7 drp7 tr7.
     forced C n 0 (entered C d p) (pkt_seq p - seq (entered C d p)) 0
        (if restarts d p then map Release (somes (cache d)) else [])
       = Some (d3, off3, drp3, tr3) \<and> sized C d3 \<and>
     bulk C d3 off3 drp3 = (d4, off4, drp4) \<and> sized C d4 \<and> off4 < C \<and>
     stamp C (pkt_timestamp p) ((startIndex d4 + off4) AND (C - 1)) (placed C d4 off4 p)
       = Some d6 \<and> sized C d6 \<and>
     (\<exists>tss. d6 = (placed C d4 off4 p)\<lparr>timestamp := tss\<rparr> \<and> length tss = unat C \<and>
        (\<forall>j<unat C. tss ! j = timestamp (placed C d4 off4 p) ! j \<or> tss ! j = pkt_timestamp p)) \<and>
     flush C n (pkt_timestamp p) 0 d6 drp4 tr3 = Some (d7, drp7, tr7) \<and> sized C d7 \<and>
     cacheLookup d p C n = Some (finish d7 drp7, drp7, 0, tr7)"
proof -
  let ?ts = "pkt_timestamp p"
  let ?tr1 = "if restarts d p then map Release (somes (cache d)) else []"
  have p2: "pow2 C" using sz by (simp add: sized_def)
  have se: "sized C (entered C d p)" using sz by (rule sized_entered)
  have "\<exists>i' d' offset' drp' tr'.
           forced C n 0 (entered C d p) (pkt_seq p - seq (entered C d p)) 0 ?tr1
             = Some (d', offset', drp', tr') \<and>
           True \<and> sized C d' \<and> i' \<le> C \<and> (i' = C \<or> offset' < C)"
    by (rule forced_rule [where P = "\<lambda>_ _ _ _ _. True"]) (use se n in simp_all)
  then obtain i3 d3 off3 drp3 tr3 where
    f: "forced C n 0 (entered C d p) (pkt_seq p - seq (entered C d p)) 0 ?tr1
          = Some (d3, off3, drp3, tr3)"
    and s3: "sized C d3" and e3: "i3 = C \<or> off3 < C" by blast
  obtain d4 off4 drp4 where b: "bulk C d3 off3 drp3 = (d4, off4, drp4)"
    by (cases "bulk C d3 off3 drp3") auto
  from sized_bulk [OF s3 b e3] have s4: "sized C d4" and o4: "off4 < C" by simp_all
  let ?cur = "(startIndex d4 + off4) AND (C - 1)"
  have cur: "?cur < C" using p2 by (rule mask_lt)
  have sp: "sized C (placed C d4 off4 p)" using s4 by (simp add: sized_def placed_def)
  from stamp_result [OF sp cur, of ?ts]
  obtain tss where st: "stamp C ?ts ?cur (placed C d4 off4 p)
        = Some ((placed C d4 off4 p)\<lparr>timestamp := tss\<rparr>)"
    and tl: "length tss = unat C"
    and tv: "\<forall>j<unat C. tss ! j = timestamp (placed C d4 off4 p) ! j \<or> tss ! j = ?ts"
    by blast
  let ?d6 = "(placed C d4 off4 p)\<lparr>timestamp := tss\<rparr>"
  have s6: "sized C ?d6" using sp tl by (simp add: sized_def)
  have "\<exists>i' d' drp' tr'. flush C n ?ts 0 ?d6 drp4 tr3 = Some (d', drp', tr') \<and>
           True \<and> sized C d' \<and> i' \<le> C \<and>
           (i' < C \<longrightarrow> cache d' ! unat (startIndex d') = None)"
    by (rule flush_rule [where P = "\<lambda>_ _ _ _. True"]) (use s6 n in simp_all)
  then obtain d7 drp7 tr7 where
    fl: "flush C n ?ts 0 ?d6 drp4 tr3 = Some (d7, drp7, tr7)" and s7: "sized C d7" by blast
  have wc: "wr (cache d4) ?cur (Some p) = Some ((cache d4)[unat ?cur := Some p])"
    and wt: "wr (timestamp d4) ?cur ?ts = Some ((timestamp d4)[unat ?cur := ?ts])"
    using s4 cur by (simp_all add: wr_in sized_i)
  have pl: "d4\<lparr>cache := (cache d4)[unat ?cur := Some p],
               timestamp := (timestamp d4)[unat ?cur := ?ts]\<rparr> = placed C d4 off4 p"
    by (simp add: placed_def)
  have pre: "(if pkt_seq p < seq (seed d p) then
               purge C 0 (seed d p) [] \<bind> (\<lambda>(dp, trp).
                 Some (dp\<lparr>seq := (if C < pkt_seq p then pkt_seq p - C else 1),
                          startIndex := 0\<rparr>, trp))
             else Some (seed d p, []))
           = Some (if restarts d p then purged C (seed d p) p else seed d p, ?tr1)"
  proof (cases "pkt_seq p < seq (seed d p)")
    case True
    then have r: "restarts d p" using ns by (simp add: stale_def restarts_def)
    have "cache (seed d p) = cache d" by (simp add: seed_def)
    then show ?thesis using True r purge_all [OF sized_seed [OF sz], of p]
      by (simp add: purged_def)
  next
    case False
    then show ?thesis by (simp add: restarts_def)
  qed
  have mt: "maxTimestamp (seed d p) = maxTimestamp d" by (simp add: seed_def)
  have "cacheLookup d p C n = Some (finish d7 drp7, drp7, 0, tr7)"
    using ns f b st fl
    unfolding cacheLookup_def Let_def
    apply (simp only: seed_def [symmetric] stale_def [symmetric] mt if_False pre)
    apply (simp add: entered_def [unfolded Let_def, symmetric] wc wt pl finish_def)
    done
  then show ?thesis using f s3 b s4 o4 st s6 tl tv fl s7 by blast
qed

section \<open>What a call keeps\<close>

lemma pow2I: "k < 64 \<Longrightarrow> pow2 (2 ^ k)"
  by (auto simp: pow2_def)

lemma pow2_4: "pow2 4"
  using pow2I [of 2] by simp

lemma sized_newDispatcher: "pow2 C \<Longrightarrow> sized C (newDispatcher C)"
  by (simp add: sized_def newDispatcher_def makeSlices_def zeroDispatcher_def pow2_pos)

lemma advance_fields [simp]:
  "maxTimestamp (advance C i d) = maxTimestamp d"
  "dropped (advance C i d) = dropped d"
  "seq (advance C i d) = seq d + 1"
  "startIndex (advance C i d) = (startIndex d + 1) AND (C - 1)"
  "cache (advance C i d) = (cache d)[unat (startIndex d) := None]"
  "timestamp (advance C i d) = (timestamp d)[unat i := 0]"
  by (simp_all add: advance_def)

lemma forced_keeps:
  assumes "sized C d" "0 < n" "i \<le> C"
    "forced C n i d off drp tr = Some (d', off', drp', tr')"
  shows "maxTimestamp d' = maxTimestamp d \<and> dropped d' = dropped d"
proof -
  have "\<exists>i' d' offset' drp' tr'.
           forced C n i d off drp tr = Some (d', offset', drp', tr') \<and>
           (maxTimestamp d' = maxTimestamp d \<and> dropped d' = dropped d) \<and>
           sized C d' \<and> i' \<le> C \<and> (i' = C \<or> offset' < C)"
    by (rule forced_rule [where P = "\<lambda>_ e _ _ _. maxTimestamp e = maxTimestamp d \<and> dropped e = dropped d"])
       (use assms in simp_all)
  then show ?thesis using assms(4) by auto
qed

lemma flush_keeps:
  assumes "sized C d" "0 < n" "i \<le> C"
    "flush C n ts i d drp tr = Some (d', drp', tr')"
  shows "maxTimestamp d' = maxTimestamp d \<and> dropped d' = dropped d"
proof -
  have "\<exists>i' d' drp' tr'. flush C n ts i d drp tr = Some (d', drp', tr') \<and>
           (maxTimestamp d' = maxTimestamp d \<and> dropped d' = dropped d) \<and>
           sized C d' \<and> i' \<le> C \<and> (i' < C \<longrightarrow> cache d' ! unat (startIndex d') = None)"
    by (rule flush_rule [where P = "\<lambda>_ e _ _. maxTimestamp e = maxTimestamp d \<and> dropped e = dropped d"])
       (use assms in simp_all)
  then show ?thesis using assms(4) by auto
qed

lemma bulk_keeps:
  "bulk C d off drp = (d', off', drp') \<Longrightarrow>
     maxTimestamp d' = maxTimestamp d \<and> dropped d' = dropped d \<and>
     cache d' = cache d \<and> timestamp d' = timestamp d"
  by (auto simp: bulk_def Let_def split: if_splits)

lemma maxTimestamp_entered:
  "maxTimestamp (entered C d p) =
     (if maxTimestamp d <s pkt_timestamp p then pkt_timestamp p else maxTimestamp d)"
  by (simp add: entered_def Let_def purged_def seed_def)

lemma maxTimestamp_call:
  assumes "sized C d" "0 < n" "\<not> stale d p"
  shows "\<exists>d' drp tr. cacheLookup d p C n = Some (d', drp, 0, tr) \<and>
           maxTimestamp d' =
             (if maxTimestamp d <s pkt_timestamp p then pkt_timestamp p else maxTimestamp d)"
proof -
  from cacheLookup_accept [OF assms]
  obtain d3 off3 drp3 tr3 d4 off4 drp4 d6 d7 drp7 tr7 tss where
    f: "forced C n 0 (entered C d p) (pkt_seq p - seq (entered C d p)) 0
        (if restarts d p then map Release (somes (cache d)) else [])
       = Some (d3, off3, drp3, tr3)"
    and b: "bulk C d3 off3 drp3 = (d4, off4, drp4)"
    and d6: "d6 = (placed C d4 off4 p)\<lparr>timestamp := tss\<rparr>" and s6: "sized C d6"
    and fl: "flush C n (pkt_timestamp p) 0 d6 drp4 tr3 = Some (d7, drp7, tr7)"
    and r: "cacheLookup d p C n = Some (finish d7 drp7, drp7, 0, tr7)"
    by blast
  have "maxTimestamp d3 = maxTimestamp (entered C d p)"
    using forced_keeps [OF sized_entered [OF assms(1)] assms(2) _ f] by simp
  moreover have "maxTimestamp d4 = maxTimestamp d3" using bulk_keeps [OF b] by simp
  moreover have "maxTimestamp d6 = maxTimestamp d4" using d6 by (simp add: placed_def)
  moreover have "maxTimestamp d7 = maxTimestamp d6"
    using flush_keeps [OF s6 assms(2) _ fl] by simp
  moreover have "maxTimestamp (finish d7 drp7) = maxTimestamp d7" by (simp add: finish_def)
  ultimately show ?thesis using r by (simp add: maxTimestamp_entered)
qed

section \<open>Stale reorder and the restart detector\<close>

text \<open>
  C5. An insert into a seeded window (\<open>seq d \<noteq> 0\<close>) whose sequence number is below the
  start of the window and whose timestamp is not above \<open>maxTimestamp\<close> releases the
  packet and returns \<open>dropped = 0\<close>, \<open>reorder_drops = 1\<close>; the window returned is the
  window given, in every field.
\<close>

theorem stale_reorder_dropped:
  assumes "seq d \<noteq> 0" "pkt_seq p < seq d" "pkt_timestamp p \<le>s maxTimestamp d"
  shows "cacheLookup d p C n = Some (d, 0, 1, [Release p])"
proof -
  have "stale d p" using assms by (simp add: stale_def seed_def signed.not_less)
  then show ?thesis by (rule cacheLookup_stale)
qed

theorem stale_reorder_dropped_witness:
  "(seq \<lparr>cache = [None, None, None, None], timestamp = [0, 0, 0, 0], maxTimestamp = 7,
        dropped = 0, seq = 11, startIndex = 1\<rparr> \<noteq> 0 \<and>
    pkt_seq (pk 3 5) < seq \<lparr>cache = [None, None, None, None], timestamp = [0, 0, 0, 0],
        maxTimestamp = 7, dropped = 0, seq = 11, startIndex = 1\<rparr> \<and>
    pkt_timestamp (pk 3 5) \<le>s maxTimestamp \<lparr>cache = [None, None, None, None],
        timestamp = [0, 0, 0, 0], maxTimestamp = 7, dropped = 0, seq = 11, startIndex = 1\<rparr>) \<and>
   cacheLookup \<lparr>cache = [None, None, None, None], timestamp = [0, 0, 0, 0], maxTimestamp = 7,
        dropped = 0, seq = 11, startIndex = 1\<rparr> (pk 3 5) 4 1 =
     Some (\<lparr>cache = [None, None, None, None], timestamp = [0, 0, 0, 0], maxTimestamp = 7,
        dropped = 0, seq = 11, startIndex = 1\<rparr>, 0, 1, [Release (pk 3 5)])"
  using stale_reorder_dropped [of "\<lparr>cache = [None, None, None, None], timestamp = [0, 0, 0, 0],
        maxTimestamp = 7, dropped = 0, seq = 11, startIndex = 1\<rparr>" "pk 3 5" 4 1]
  by (simp add: pk_def)

text \<open>
  C10. Every call on a well-sized window returns, and \<open>maxTimestamp\<close> after the call is
  not below \<open>maxTimestamp\<close> before it (in the signed order of \<^verbatim>\<open>time.Duration\<close>); when
  the call detects a restart, \<open>maxTimestamp\<close> after it is the timestamp of the restarting
  packet.
\<close>

theorem maxTimestamp_monotone:
  assumes "sized C d" "0 < n"
  shows "\<exists>d' drp ex tr. cacheLookup d p C n = Some (d', drp, ex, tr) \<and>
           maxTimestamp d \<le>s maxTimestamp d' \<and>
           (restarts d p \<longrightarrow> maxTimestamp d' = pkt_timestamp p)"
proof (cases "stale d p")
  case True
  then have "cacheLookup d p C n = Some (d, 0, 1, [Release p])" by (rule cacheLookup_stale)
  moreover have "\<not> restarts d p" using True by (simp add: stale_def restarts_def)
  ultimately show ?thesis by simp
next
  case False
  from maxTimestamp_call [OF assms False]
  obtain d' drp tr where "cacheLookup d p C n = Some (d', drp, 0, tr)"
    "maxTimestamp d' =
       (if maxTimestamp d <s pkt_timestamp p then pkt_timestamp p else maxTimestamp d)"
    by blast
  then show ?thesis by (auto simp: restarts_def)
qed

theorem maxTimestamp_monotone_witness:
  "(sized 4 \<lparr>cache = [None, None, None, None], timestamp = [0, 0, 0, 0], maxTimestamp = 7,
        dropped = 0, seq = 11, startIndex = 1\<rparr> \<and> (0::nat) < 1) \<and>
   (\<exists>d' drp ex tr.
      cacheLookup \<lparr>cache = [None, None, None, None], timestamp = [0, 0, 0, 0], maxTimestamp = 7,
        dropped = 0, seq = 11, startIndex = 1\<rparr> (pk 3 9) 4 1 = Some (d', drp, ex, tr) \<and>
      7 \<le>s maxTimestamp d' \<and>
      (restarts \<lparr>cache = [None, None, None, None], timestamp = [0, 0, 0, 0], maxTimestamp = 7,
        dropped = 0, seq = 11, startIndex = 1\<rparr> (pk 3 9) \<and> maxTimestamp d' = 9))"
proof -
  let ?d = "\<lparr>cache = [None, None, None, None], timestamp = [0, 0, 0, 0], maxTimestamp = 7,
        dropped = 0, seq = 11, startIndex = 1\<rparr>"
  have s: "sized 4 ?d" by (simp add: sized_def pow2_4)
  have r: "restarts ?d (pk 3 9)" by (simp add: restarts_def seed_def pk_def)
  show ?thesis
    using maxTimestamp_monotone [OF s, of 1 "pk 3 9"] s r by (auto simp: pk_def)
qed

section \<open>Examples on small windows\<close>

text \<open>
  C2. The claim: each step of the two window-advancing loops zeroes the timestamp of
  the slot at \<^verbatim>\<open>startIndex\<close>, so every slot the window has moved past has timestamp 0
  after the call. The code zeroes \<^verbatim>\<open>dispatcher.timestamp[i]\<close> for the loop counter
  \<open>i\<close>, which starts at 0 in every call. On a fresh window of 4 slots fed the packets
  with sequence numbers 1 and 2 (timestamps 1 and 2), the second call delivers packet 2
  from slot 1 and zeroes slot 0: the window has moved past slot 1 (its head is slot 2)
  and slot 1 still holds timestamp 2.
\<close>

theorem passed_slot_keeps_timestamp:
  "feed 4 1 (newDispatcher 4) [pk 1 1, pk 2 2] =
     Some (\<lparr>cache = [None, None, None, None], timestamp = [0, 2, 0, 0], maxTimestamp = 2,
            dropped = 0, seq = 3, startIndex = 2\<rparr>,
           0, 0, [Put 0 (pk 1 1), Put 0 (pk 2 2)])"
  by code_simp

text \<open>
  C4. The claim: a call that detects a restart returns \<open>dropped = 0\<close>. With 4 slots, a
  window that has delivered up to sequence number 1000 (\<open>maxTimestamp = 1000\<close>) and
  receives sequence number 5 with timestamp 1001 purges, reseats its start at
  \<open>5 - 4 = 1\<close>, finds the offset \<open>5 - 1 = 4\<close> not below the cache size, makes one forced
  step over an empty slot and returns \<open>dropped = 1\<close>.
\<close>

theorem restart_counts_a_drop:
  "cacheLookup \<lparr>cache = [None, None, None, None], timestamp = [0, 0, 0, 0],
        maxTimestamp = 1000, dropped = 0, seq = 1001, startIndex = 0\<rparr> (pk 5 1001) 4 1 =
     Some (\<lparr>cache = [Some (pk 5 1001), None, None, None],
             timestamp = [1001, 1001, 1001, 1001], maxTimestamp = 1001,
             dropped = 1, seq = 2, startIndex = 1\<rparr>, 1, 0, [])"
  by code_simp

section \<open>ERSPAN Type III\<close>

text \<open>
  C9. On a slice that starts at the outer IPv4 header and is long enough for the IPv4
  header, the GRE base header and the 12-byte Type III shim, with IP protocol 47 (GRE)
  and GRE protocol type 0x22EB, \<open>Decapsulate\<close> gives the outer source and destination
  addresses, tunnel id 0 and type ERSPAN.
\<close>

theorem decapsulate_erspan3:
  assumes "36 \<le> length bs" "bs ! 9 = 47" "be16 bs 22 = 0x22EB"
  shows "Decapsulate bs =
    \<lparr>Src = be32 bs 12, Dst = be32 bs 16, TunnelId = 0, Type = TUNNEL_TYPE_ERSPAN\<rparr>"
  using assms by (simp add: Decapsulate_def)

theorem decapsulate_erspan3_witness:
  "(36 \<le> length [0x45, 0, 0, 0, 0, 0, 0, 0, 64, 47, 0, 0, 172, 16, 1, 103, 10, 30, 101, 132,
        0x10, 0, 0x22, 0xEB, 0, 0, 0, 0, 0, 0, 0, 0, 0, 0, 0, 0 :: u8] \<and>
    [0x45, 0, 0, 0, 0, 0, 0, 0, 64, 47, 0, 0, 172, 16, 1, 103, 10, 30, 101, 132,
        0x10, 0, 0x22, 0xEB, 0, 0, 0, 0, 0, 0, 0, 0, 0, 0, 0, 0 :: u8] ! 9 = 47 \<and>
    be16 [0x45, 0, 0, 0, 0, 0, 0, 0, 64, 47, 0, 0, 172, 16, 1, 103, 10, 30, 101, 132,
        0x10, 0, 0x22, 0xEB, 0, 0, 0, 0, 0, 0, 0, 0, 0, 0, 0, 0] 22 = 0x22EB) \<and>
   Decapsulate [0x45, 0, 0, 0, 0, 0, 0, 0, 64, 47, 0, 0, 172, 16, 1, 103, 10, 30, 101, 132,
        0x10, 0, 0x22, 0xEB, 0, 0, 0, 0, 0, 0, 0, 0, 0, 0, 0, 0] =
     \<lparr>Src = 0xAC100167, Dst = 0x0A1E6584, TunnelId = 0, Type = TUNNEL_TYPE_ERSPAN\<rparr>"
proof -
  let ?bs = "[0x45, 0, 0, 0, 0, 0, 0, 0, 64, 47, 0, 0, 172, 16, 1, 103, 10, 30, 101, 132,
        0x10, 0, 0x22, 0xEB, 0, 0, 0, 0, 0, 0, 0, 0, 0, 0, 0, 0 :: u8]"
  have h: "36 \<le> length ?bs" "?bs ! 9 = 47" "be16 ?bs 22 = 0x22EB"
    by (simp_all add: be16_def)
  have v: "be32 ?bs 12 = 0xAC100167" "be32 ?bs 16 = 0x0A1E6584"
    by (simp_all add: be32_def)
  show ?thesis using decapsulate_erspan3 [OF h] h v by simp
qed

section \<open>Arithmetic of 64-bit counters\<close>

lemma u64_lt: "unat (x::u64) < 2 ^ 64"
  using unsigned_less [of x, where 'a = nat] by simp

lemma unat_add_le: "unat (a + b :: u64) \<le> unat a + unat b"
  by (simp add: unat_word_ariths)

lemma unat_max: "unat (- 1 :: u64) = 2 ^ 64 - 1"
  by (simp add: unsigned_minus_1_eq_mask mask_eq_exp_minus_1)

lemma inc_zero: "(s::u64) + 1 = 0 \<Longrightarrow> unat s = 2 ^ 64 - 1"
  using max_word_wrap [of s] unat_max by simp

lemma unat_le_1: "unat (x::u64) \<le> 1 \<Longrightarrow> x \<noteq> 0 \<Longrightarrow> x = 1"
  by (metis One_nat_def le_Suc_eq le_zero_eq unat_1 unat_eq_0 word_unat_eq_iff)

lemma ar1: 
  assumes "unat (s::u64) + unat (x::u64) \<le> 2 ^ 64" "x \<noteq> 0"
  shows "unat (s + 1) + unat (x - 1) \<le> 2 ^ 64"
proof -
  have "unat (s + 1) \<le> unat s + 1" using unat_add_le [of s 1] by simp
  moreover have "unat (x - 1) = unat x - 1" using assms(2) by (rule unat_dec)
  moreover have "0 < unat x" using assms(2) by (simp add: unat_gt_0)
  ultimately show ?thesis using assms(1) by arith
qed

lemma ar2: 
  assumes "unat (s::u64) + unat (x::u64) \<le> 2 ^ 64" "x \<noteq> 0" "s + 1 = 0"
  shows "x = 1"
proof -
  have "unat s = 2 ^ 64 - 1" using assms(3) by (rule inc_zero)
  then have "unat x \<le> 1" using assms(1) by simp
  then show ?thesis using assms(2) by (rule unat_le_1)
qed

lemma ar3: 
  assumes "(i::u64) < C" "x \<noteq> 0" "C - (i + 1) \<le> x - 1" 
  shows "C - i \<le> x"
proof -
  have "unat (i + 1) = Suc (unat i)" using assms(1) by (rule unat_inc_less)
  moreover have "i + 1 \<le> C" using assms(1) by (rule inc_le)
  ultimately have "unat (C - (i + 1)) = unat C - Suc (unat i)" by (simp add: unat_sub)
  moreover have "unat (x - 1) = unat x - 1" using assms(2) by (rule unat_dec)
  moreover have "0 < unat x" using assms(2) by (simp add: unat_gt_0)
  moreover have "unat (C - i) = unat C - unat i" using assms(1) by (simp add: unat_sub)
  moreover have "unat i < unat C" using assms(1) by (simp add: word_less_nat_alt)
  ultimately show ?thesis using assms(3) by (simp add: word_le_nat_alt)
qed

lemma ar4: "(sd::u64) \<le> s \<Longrightarrow> unat sd + unat (s - sd) \<le> 2 ^ 64"
  using u64_lt [of s] by (simp add: unat_sub word_le_nat_alt)

lemma ar6: 
  assumes "(C::u64) \<le> x" "0 < C" "unat (s::u64) + unat x \<le> 2 ^ 64"
  shows "unat (s + (x - C + 1)) + unat (x - (x - C + 1)) \<le> 2 ^ 64"
    and "s + (x - C + 1) = 0 \<Longrightarrow> x - (x - C + 1) = 0"
proof -
  have c: "0 < unat C" "unat C \<le> unat x" using assms by (simp_all add: word_le_nat_alt word_less_nat_alt)
  have "unat (x - C) = unat x - unat C" using assms(1) by (rule unat_sub)
  moreover have "unat (x - C) + unat (1::u64) < 2 ^ 64" using calculation c u64_lt [of x] by simp
  ultimately have g: "unat (x - C + 1) = unat x - unat C + 1"
    by (simp add: unat_add_lem [THEN iffD1])
  then have "x - C + 1 \<le> x" using c by (simp add: word_le_nat_alt)
  moreover have "C \<noteq> 0" using assms(2) by auto
  ultimately have r: "unat (x - (x - C + 1)) = unat C - 1" by (simp add: unat_dec)
  have "unat (s + (x - C + 1)) \<le> unat s + (unat x - unat C + 1)"
    using unat_add_le [of s "x - C + 1"] g by simp
  then show "unat (s + (x - C + 1)) + unat (x - (x - C + 1)) \<le> 2 ^ 64"
    using r c assms(3) by simp
  assume z: "s + (x - C + 1) = 0"
  have "unat (s + (x - C + 1)) = (unat s + unat (x - C + 1)) mod 2 ^ 64"
    by (simp add: unat_word_ariths)
  then have "(unat s + unat (x - C + 1)) mod 2 ^ 64 = 0" using z by simp
  then have "2 ^ 64 dvd unat s + (unat x - unat C + 1)" using g by (simp add: mod_eq_0_iff_dvd)
  moreover have "0 < unat s + (unat x - unat C + 1)" by simp
  moreover have "unat s + (unat x - unat C + 1) \<le> 2 ^ 64" using assms(3) c by simp
  ultimately have "unat s + (unat x - unat C + 1) = (2::nat) ^ 64"
    by (metis dvd_imp_le le_antisym)
  then have "unat C = 1" using assms(3) c by simp
  then show "x - (x - C + 1) = 0" using r by (simp add: unat_eq_0)
qed

section \<open>The invariant, step by step\<close>

lemma slotOff_lt: "pow2 C \<Longrightarrow> slotOff C d j < C"
  by (simp add: slotOff_def mask_lt)

lemma slotOff_zero: "sized C d \<Longrightarrow> j < C \<Longrightarrow> slotOff C d j = 0 \<longleftrightarrow> j = startIndex d"
  using idx_eq0 [of C j "startIndex d"] by (auto simp: slotOff_def sized_def)

lemma slotOff_advance:
  "sized C d \<Longrightarrow> j < C \<Longrightarrow> j \<noteq> startIndex d \<Longrightarrow>
     slotOff C (advance C i d) j = slotOff C d j - 1"
  using off_advance [of C j "startIndex d"] by (simp add: slotOff_def sized_def)

lemma frame_timestamp [simp]:
  "slots C (d\<lparr>timestamp := t\<rparr>) = slots C d"
  "lone C (d\<lparr>timestamp := t\<rparr>) = lone C d"
  "passed C i (d\<lparr>timestamp := t\<rparr>) = passed C i d"
  "slots C (d\<lparr>maxTimestamp := m\<rparr>) = slots C d"
  "lone C (d\<lparr>maxTimestamp := m\<rparr>) = lone C d"
  "aimed s (d\<lparr>maxTimestamp := m\<rparr>) x = aimed s d x"
  "slots C (d\<lparr>dropped := r\<rparr>) = slots C d"
  "lone C (d\<lparr>dropped := r\<rparr>) = lone C d"
  by (simp_all add: slots_def lone_def passed_def slotOff_def aimed_def)

lemma cache_advance_other:
  "sized C d \<Longrightarrow> j < C \<Longrightarrow> j \<noteq> startIndex d \<Longrightarrow>
     cache (advance C i d) ! unat j = cache d ! unat j"
  by (simp add: word_unat_eq_iff)

lemma cache_advance_head:
  "sized C d \<Longrightarrow> cache (advance C i d) ! unat (startIndex d) = None"
  by (simp add: sized_si)

lemma slots_advance:
  assumes sz: "sized C d" and sl: "slots C d"
  shows "slots C (advance C i d)"
  unfolding slots_def
proof (intro allI impI)
  fix j q
  assume j: "j < C" and c: "cache (advance C i d) ! unat j = Some q"
  have ne: "j \<noteq> startIndex d" using c cache_advance_head [OF sz, of i] by auto
  then have "cache d ! unat j = Some q" using c cache_advance_other [OF sz j] by simp
  with sl j have a: "pkt_seq q = seq d + slotOff C d j"
    and b: "unat (seq d) + unat (slotOff C d j) \<le> 2 ^ 64" by (auto simp: slots_def)
  have nz: "slotOff C d j \<noteq> 0" using slotOff_zero [OF sz j] ne by simp
  have o: "slotOff C (advance C i d) j = slotOff C d j - 1" using sz j ne by (rule slotOff_advance)
  show "pkt_seq q = seq (advance C i d) + slotOff C (advance C i d) j \<and>
        unat (seq (advance C i d)) + unat (slotOff C (advance C i d) j) \<le> 2 ^ 64"
    using a ar1 [OF b nz] by (simp add: o)
qed

lemma lone_advance:
  assumes sz: "sized C d" and sl: "slots C d"
  shows "lone C (advance C i d)"
  unfolding lone_def
proof (intro allI impI)
  fix j
  assume z: "seq (advance C i d) = 0" and j: "j < C" and n: "j \<noteq> startIndex (advance C i d)"
  show "cache (advance C i d) ! unat j = None"
  proof (rule ccontr)
    assume "cache (advance C i d) ! unat j \<noteq> None"
    then obtain q where c: "cache (advance C i d) ! unat j = Some q" by auto
    have ne: "j \<noteq> startIndex d" using c cache_advance_head [OF sz, of i] by auto
    then have "cache d ! unat j = Some q" using c cache_advance_other [OF sz j] by simp
    with sl j have b: "unat (seq d) + unat (slotOff C d j) \<le> 2 ^ 64" by (auto simp: slots_def)
    have nz: "slotOff C d j \<noteq> 0" using slotOff_zero [OF sz j] ne by simp
    have "slotOff C d j = 1" using b nz z by (intro ar2 [of "seq d"]) simp_all
    then have "slotOff C (advance C i d) j = 0" using slotOff_advance [OF sz j ne] by simp
    then have "j = startIndex (advance C i d)"
      using slotOff_zero [OF sized_advance [OF sz] j] by simp
    with n show False by simp
  qed
qed

lemma passed_advance:
  assumes sz: "sized C d" and i: "i < C" and pa: "passed C i d"
  shows "passed C (i + 1) (advance C i d)"
  unfolding passed_def
proof (intro allI impI)
  fix j
  assume j: "j < C" and o: "C - (i + 1) \<le> slotOff C (advance C i d) j"
  show "cache (advance C i d) ! unat j = None"
  proof (cases "j = startIndex d")
    case True
    then show ?thesis using cache_advance_head [OF sz] by simp
  next
    case False
    have nz: "slotOff C d j \<noteq> 0" using slotOff_zero [OF sz j] False by simp
    have "C - i \<le> slotOff C d j"
      using o slotOff_advance [OF sz j False] by (intro ar3 [OF i nz]) simp
    then have "cache d ! unat j = None" using pa j by (simp add: passed_def)
    then show ?thesis using cache_advance_other [OF sz j False] by simp
  qed
qed

lemma passed_0:
  assumes "pow2 C"
  shows "passed C 0 d"
  unfolding passed_def
proof (intro allI impI)
  fix j
  assume "C - 0 \<le> slotOff C d j"
  then show "cache d ! unat j = None" using slotOff_lt [OF assms, of d j] by simp
qed

lemma passed_all: "passed C C d \<Longrightarrow> j < C \<Longrightarrow> cache d ! unat j = None"
  by (simp add: passed_def)

lemma aimed_advance:
  assumes "aimed s d x" "C \<le> x" "0 < C"
  shows "aimed s (advance C i d) (x - 1)"
proof -
  have nz: "x \<noteq> 0" using assms(2,3) by auto
  have a: "unat (seq d) + unat x \<le> 2 ^ 64" using assms(1) by (simp add: aimed_def)
  have "seq d + 1 = 0 \<Longrightarrow> x - 1 = 0" using ar2 [OF a nz] by simp
  then show ?thesis using assms(1) ar1 [OF a nz] by (simp add: aimed_def)
qed

lemma inv_empty:
  assumes "inv C d" "seq d = 0" "j < C"
  shows "cache d ! unat j = None"
  using assms by (cases "j = startIndex d") (auto simp: inv_def lone_def)

lemma inv_seed:
  assumes "inv C d"
  shows "inv C (seed d p)"
proof (cases "seq d = 0")
  case False
  then show ?thesis using assms by (simp add: seed_def)
next
  case True
  have e: "\<And>j. j < C \<Longrightarrow> cache d ! unat j = None" using assms True by (rule inv_empty)
  have "sized C (seed d p)" using assms by (simp add: inv_def sized_seed)
  moreover have "slots C (seed d p)" using e by (simp add: slots_def seed_def)
  moreover have "lone C (seed d p)" using e by (simp add: lone_def seed_def)
  moreover have "cache (seed d p) ! unat (startIndex (seed d p)) = None"
    using assms by (simp add: seed_def inv_def)
  ultimately show ?thesis by (simp add: inv_def)
qed

lemma purged_empty: "j < C \<Longrightarrow> cache (purged C d p) ! unat j = None"
  by (simp add: purged_def word_less_nat_alt)

lemma aimed_purged: "0 < C \<Longrightarrow> aimed (pkt_seq p) (purged C d p) (pkt_seq p - seq (purged C d p))"
proof (cases "C < pkt_seq p")
  case True
  assume "0 < C"
  then have "pkt_seq p - C \<le> pkt_seq p" "pkt_seq p - C \<noteq> 0" using True
    by (simp_all add: word_le_nat_alt word_less_nat_alt unat_sub unat_eq_0 [symmetric])
  then show ?thesis using True ar4 [of "pkt_seq p - C" "pkt_seq p"]
    by (simp add: aimed_def purged_def)
next
  case False
  show ?thesis
  proof (cases "pkt_seq p = 0")
    case True
    then show ?thesis using False unat_max by (simp add: aimed_def purged_def)
  next
    case nz: False
    then have "1 \<le> pkt_seq p" by (simp add: word_le_nat_alt unat_gt_0 Suc_le_eq)
    then show ?thesis using False ar4 [of 1 "pkt_seq p"] by (simp add: aimed_def purged_def)
  qed
qed

lemma entered_ok:
  assumes i: "inv C d" and ns: "\<not> stale d p"
  shows "slots C (entered C d p) \<and> lone C (entered C d p) \<and>
         aimed (pkt_seq p) (entered C d p) (pkt_seq p - seq (entered C d p))"
proof (cases "restarts d p")
  case True
  have "0 < C" using i by (simp add: inv_def sized_def pow2_pos)
  then have "aimed (pkt_seq p) (purged C (seed d p) p) (pkt_seq p - seq (purged C (seed d p) p))"
    by (rule aimed_purged)
  moreover have "slots C (purged C (seed d p) p)" by (simp add: slots_def purged_empty)
  moreover have "lone C (purged C (seed d p) p)" by (simp add: lone_def purged_empty)
  ultimately show ?thesis using True by (simp add: entered_def Let_def)
next
  case False
  then have le: "seq (seed d p) \<le> pkt_seq p" using ns by (auto simp: stale_def restarts_def)
  have "seq (seed d p) = 0 \<Longrightarrow> pkt_seq p = 0" by (auto simp: seed_def split: if_splits)
  then have "aimed (pkt_seq p) (seed d p) (pkt_seq p - seq (seed d p))"
    using ar4 [OF le] by (auto simp add: aimed_def)
  moreover have "inv C (seed d p)" using i by (rule inv_seed)
  ultimately show ?thesis using False by (simp add: entered_def Let_def inv_def)
qed

lemma forced_ok:
  assumes sz: "sized C d" and n: "0 < n" and sl: "slots C d" and lo: "lone C d"
    and ai: "aimed s d x" and f: "forced C n 0 d x drp tr = Some (d', x', drp', tr')"
  shows "slots C d' \<and> lone C d' \<and> aimed s d' x' \<and>
         (C \<le> x' \<longrightarrow> (\<forall>j<C. cache d' ! unat j = None))"
proof -
  have p2: "pow2 C" using sz by (simp add: sized_def)
  let ?P = "\<lambda>i e y (r::u64) (t::event list). slots C e \<and> lone C e \<and> passed C i e \<and> aimed s e y"
  have "\<exists>i' d' x' drp' tr'. forced C n 0 d x drp tr = Some (d', x', drp', tr') \<and>
          ?P i' d' x' drp' tr' \<and> sized C d' \<and> i' \<le> C \<and> (i' = C \<or> x' < C)"
  proof (rule forced_rule [where P = ?P])
    show "?P 0 d x drp tr" using sl lo ai passed_0 [OF p2] by simp
  qed (use sz n in \<open>simp_all add: slots_advance lone_advance passed_advance aimed_advance pow2_pos [OF p2]\<close>)
  then obtain i' where "?P i' d' x' drp' tr'" "i' = C \<or> x' < C" using f by auto
  then show ?thesis using passed_all [of C d'] by auto
qed

lemma bulk_ok:
  assumes sz: "sized C d" and sl: "slots C d" and lo: "lone C d" and ai: "aimed s d x"
    and em: "C \<le> x \<longrightarrow> (\<forall>j<C. cache d ! unat j = None)"
    and b: "bulk C d x drp = (d', x', drp')"
  shows "slots C d' \<and> lone C d' \<and> aimed s d' x'"
proof (cases "C \<le> x")
  case False
  then show ?thesis using assms by (auto simp: bulk_def)
next
  case True
  have c0: "0 < C" using sz by (simp add: sized_def pow2_pos)
  have a: "unat (seq d) + unat x \<le> 2 ^ 64" using ai by (simp add: aimed_def)
  have d': "d' = d\<lparr>seq := seq d + (x - C + 1),
                    startIndex := (startIndex d + (x - C + 1)) AND (C - 1)\<rparr>"
    and x': "x' = x - (x - C + 1)"
    using b True by (auto simp: bulk_def Let_def)
  have e: "\<And>j. j < C \<Longrightarrow> cache d' ! unat j = None" using em True d' by simp
  have "seq d' + x' = s" using ai d' x' by (simp add: aimed_def)
  then have "aimed s d' x'"
    using ar6 [OF True c0 a] d' x' by (simp add: aimed_def)
  then show ?thesis using e by (simp add: slots_def lone_def)
qed

lemma placed_fields [simp]:
  "seq (placed C d x p) = seq d"
  "startIndex (placed C d x p) = startIndex d"
  "maxTimestamp (placed C d x p) = maxTimestamp d"
  "dropped (placed C d x p) = dropped d"
  "slotOff C (placed C d x p) j = slotOff C d j"
  by (simp_all add: placed_def slotOff_def)

lemma placed_ok:
  assumes sz: "sized C d" and sl: "slots C d" and lo: "lone C d"
    and ai: "aimed (pkt_seq p) d x" and x: "x < C"
  shows "slots C (placed C d x p) \<and> lone C (placed C d x p)"
proof -
  have p2: "pow2 C" using sz by (simp add: sized_def)
  let ?cur = "(startIndex d + x) AND (C - 1)"
  have cur: "?cur < C" using p2 by (rule mask_lt)
  have oc: "slotOff C d ?cur = x" using off_place [OF p2 x] by (simp add: slotOff_def)
  have cl: "unat ?cur < length (cache d)" using sz cur by (rule sized_i)
  have nth: "\<And>j. j < C \<Longrightarrow> cache (placed C d x p) ! unat j =
               (if j = ?cur then Some p else cache d ! unat j)"
    using cl by (auto simp: placed_def nth_list_update word_unat_eq_iff)
  have "slots C (placed C d x p)"
    unfolding slots_def
  proof (intro allI impI)
    fix j q
    assume j: "j < C" and c: "cache (placed C d x p) ! unat j = Some q"
    show "pkt_seq q = seq (placed C d x p) + slotOff C (placed C d x p) j \<and>
          unat (seq (placed C d x p)) + unat (slotOff C (placed C d x p) j) \<le> 2 ^ 64"
    proof (cases "j = ?cur")
      case True
      then have "q = p" using c nth [OF j] by simp
      then show ?thesis using True ai oc by (simp add: aimed_def)
    next
      case False
      then have "cache d ! unat j = Some q" using c nth [OF j] by simp
      then show ?thesis using sl j by (simp add: slots_def)
    qed
  qed
  moreover have "lone C (placed C d x p)"
    unfolding lone_def
  proof (intro allI impI)
    fix j
    assume z: "seq (placed C d x p) = 0" and j: "j < C" and ne: "j \<noteq> startIndex (placed C d x p)"
    have "seq d = 0" using z by simp
    then have "x = 0" using ai by (auto simp: aimed_def)
    then have "?cur = startIndex d" using sz by (simp add: mask_id sized_def)
    moreover have "cache d ! unat j = None"
      using lo \<open>seq d = 0\<close> j ne by (simp add: lone_def)
    ultimately show "cache (placed C d x p) ! unat j = None"
      using nth [OF j] ne by simp
  qed
  ultimately show ?thesis by simp
qed

lemma flush_ok:
  assumes sz: "sized C d" and n: "0 < n" and sl: "slots C d" and lo: "lone C d"
    and f: "flush C n ts 0 d drp tr = Some (d', drp', tr')"
  shows "slots C d' \<and> lone C d' \<and> cache d' ! unat (startIndex d') = None"
proof -
  have p2: "pow2 C" using sz by (simp add: sized_def)
  let ?P = "\<lambda>i e (r::u64) (t::event list). slots C e \<and> lone C e \<and> passed C i e"
  have "\<exists>i' d' drp' tr'. flush C n ts 0 d drp tr = Some (d', drp', tr') \<and>
          ?P i' d' drp' tr' \<and> sized C d' \<and> i' \<le> C \<and>
          (i' < C \<longrightarrow> cache d' ! unat (startIndex d') = None)"
  proof (rule flush_rule [where P = ?P])
    show "?P 0 d drp tr" using sl lo passed_0 [OF p2] by simp
  qed (use sz n in \<open>simp_all add: slots_advance lone_advance passed_advance\<close>)
  then obtain i' where P: "?P i' d' drp' tr'" and s': "sized C d'" and i': "i' \<le> C"
    and h: "i' < C \<longrightarrow> cache d' ! unat (startIndex d') = None" using f by auto
  have "cache d' ! unat (startIndex d') = None"
  proof (cases "i' < C")
    case True
    then show ?thesis using h by simp
  next
    case False
    then have "i' = C" using i' by simp
    then show ?thesis using P passed_all [of C d' "startIndex d'"] s' by (simp add: sized_def)
  qed
  then show ?thesis using P by simp
qed

text \<open>Every call on a window that satisfies the invariant returns a window that does.\<close>

lemma inv_call:
  assumes i: "inv C d" and n: "0 < n"
  shows "\<exists>d' drp ex tr. cacheLookup d p C n = Some (d', drp, ex, tr) \<and> inv C d'"
proof (cases "stale d p")
  case True
  then show ?thesis using i by (simp add: cacheLookup_stale)
next
  case False
  have sz: "sized C d" using i by (simp add: inv_def)
  from cacheLookup_accept [OF sz n False]
  obtain d3 off3 drp3 tr3 d4 off4 drp4 d6 d7 drp7 tr7 tss where
    f: "forced C n 0 (entered C d p) (pkt_seq p - seq (entered C d p)) 0
        (if restarts d p then map Release (somes (cache d)) else [])
       = Some (d3, off3, drp3, tr3)" and s3: "sized C d3"
    and b: "bulk C d3 off3 drp3 = (d4, off4, drp4)" and s4: "sized C d4" and o4: "off4 < C"
    and d6: "d6 = (placed C d4 off4 p)\<lparr>timestamp := tss\<rparr>" and s6: "sized C d6"
    and fl: "flush C n (pkt_timestamp p) 0 d6 drp4 tr3 = Some (d7, drp7, tr7)"
    and s7: "sized C d7"
    and r: "cacheLookup d p C n = Some (finish d7 drp7, drp7, 0, tr7)"
    by blast
  from entered_ok [OF i False]
  have e: "slots C (entered C d p)" "lone C (entered C d p)"
    "aimed (pkt_seq p) (entered C d p) (pkt_seq p - seq (entered C d p))" by simp_all
  from forced_ok [OF sized_entered [OF sz] n e f]
  have k3: "slots C d3" "lone C d3" "aimed (pkt_seq p) d3 off3"
    "C \<le> off3 \<longrightarrow> (\<forall>j<C. cache d3 ! unat j = None)" by simp_all
  from bulk_ok [OF s3 k3 b]
  have k4: "slots C d4" "lone C d4" "aimed (pkt_seq p) d4 off4" by simp_all
  from placed_ok [OF s4 k4 o4] have "slots C d6" "lone C d6" using d6 by simp_all
  from flush_ok [OF s6 n this fl]
  have "slots C d7" "lone C d7" "cache d7 ! unat (startIndex d7) = None" by simp_all
  then have "inv C (finish d7 drp7)" using s7 by (simp add: inv_def finish_def sized_def)
  then show ?thesis using r by simp
qed

section \<open>Well-formedness after every call\<close>

lemma inv_newDispatcher:
  assumes "pow2 C"
  shows "inv C (newDispatcher C)"
proof -
  have e: "\<And>j. j < C \<Longrightarrow> cache (newDispatcher C) ! unat j = None"
    by (simp add: newDispatcher_def makeSlices_def zeroDispatcher_def word_less_nat_alt)
  have "startIndex (newDispatcher C) < C"
    using pow2_pos [OF assms] by (simp add: newDispatcher_def makeSlices_def zeroDispatcher_def)
  then show ?thesis
    using e sized_newDispatcher [OF assms] by (simp add: inv_def slots_def lone_def)
qed

lemma inv_feed:
  assumes "inv C d" "0 < n"
  shows "\<exists>d' drp ex tr. feed C n d ps = Some (d', drp, ex, tr) \<and> inv C d'"
  using assms(1)
proof (induction ps arbitrary: d)
  case Nil
  then show ?case by simp
next
  case (Cons p ps)
  from inv_call [OF Cons.prems assms(2), of p]
  obtain d1 drp1 ex1 tr1 where c: "cacheLookup d p C n = Some (d1, drp1, ex1, tr1)"
    and i1: "inv C d1" by blast
  from Cons.IH [OF i1]
  obtain d2 drp2 ex2 tr2 where "feed C n d1 ps = Some (d2, drp2, ex2, tr2)" "inv C d2"
    by blast
  then show ?case using c by simp
qed

lemma inv_wellformed:
  assumes "inv C d"
  shows "wellformed C d"
proof -
  have sz: "sized C d" and sl: "slots C d" and h: "cache d ! unat (startIndex d) = None"
    using assms by (simp_all add: inv_def)
  from sz obtain k where k: "k < 64" "C = 2 ^ k" "C - 1 = mask k"
    by (auto simp: sized_def elim: pow2E)
  have c0: "0 < C" using sz by (simp add: sized_def pow2_pos)
  have md: "\<And>x. x mod C = x AND (C - 1)"
    using word_mod_2p_is_mask [of k] k c0 by simp
  have "\<forall>i\<in>{0..<unat C}. case cache d ! i of None \<Rightarrow> True
          | Some q \<Rightarrow> pkt_seq q = seq d + (of_nat i - startIndex d) mod C"
  proof
    fix i assume "i \<in> {0..<unat C}"
    then have i: "i < unat C" by simp
    then have "i < 2 ^ 64" using u64_lt [of C] by simp
    then have u: "unat (of_nat i :: u64) = i" by (simp add: unat_of_nat)
    then have j: "(of_nat i :: u64) < C" using i by (simp add: word_less_nat_alt)
    show "case cache d ! i of None \<Rightarrow> True
          | Some q \<Rightarrow> pkt_seq q = seq d + (of_nat i - startIndex d) mod C"
    proof (cases "cache d ! i")
      case None
      then show ?thesis by simp
    next
      case (Some q)
      then have "cache d ! unat (of_nat i :: u64) = Some q" using u by simp
      with sl j have "pkt_seq q = seq d + slotOff C d (of_nat i)" by (simp add: slots_def)
      then show ?thesis using Some by (simp add: md slotOff_def)
    qed
  qed
  then show ?thesis using sz h by (simp add: wellformed_def sized_def)
qed

text \<open>
  C3. However many packets a window has been fed since \<^verbatim>\<open>findAndAdd\<close> made it, every
  call has returned and the window is well-formed after the last one: the head index
  is below the cache size, the head slot is empty, and the packet in slot \<open>i\<close> has the
  sequence number \<open>start_seq + ((i - start_index) mod C)\<close>. The cache size is a power
  of two and there is at least one slave queue.
\<close>

theorem window_wellformed:
  assumes "pow2 C" "0 < n"
  shows "\<exists>d drp ex tr. feed C n (newDispatcher C) ps = Some (d, drp, ex, tr) \<and> wellformed C d"
proof -
  from inv_feed [OF inv_newDispatcher [OF assms(1)] assms(2), of ps]
  obtain d drp ex tr where "feed C n (newDispatcher C) ps = Some (d, drp, ex, tr)" "inv C d"
    by blast
  then show ?thesis using inv_wellformed by blast
qed

theorem window_wellformed_witness:
  "(pow2 4 \<and> (0::nat) < 1) \<and>
   feed 4 1 (newDispatcher 4) [pk 1 1, pk 3 2, pk 8 3, pk 6 4] =
     Some (\<lparr>cache = [None, Some (pk 6 4), None, Some (pk 8 3)], timestamp = [4, 4, 3, 3],
             maxTimestamp = 4, dropped = 2, seq = 5, startIndex = 0\<rparr>,
           2, 0, [Put 0 (pk 1 1), Put 0 (pk 3 2)]) \<and>
   wellformed 4 \<lparr>cache = [None, Some (pk 6 4), None, Some (pk 8 3)], timestamp = [4, 4, 3, 3],
             maxTimestamp = 4, dropped = 2, seq = 5, startIndex = 0\<rparr>"
proof -
  have e: "feed 4 1 (newDispatcher 4) [pk 1 1, pk 3 2, pk 8 3, pk 6 4] =
     Some (\<lparr>cache = [None, Some (pk 6 4), None, Some (pk 8 3)], timestamp = [4, 4, 3, 3],
             maxTimestamp = 4, dropped = 2, seq = 5, startIndex = 0\<rparr>,
           2, 0, [Put 0 (pk 1 1), Put 0 (pk 3 2)])"
    by code_simp
  have h: "(0::nat) < 1" by simp
  show ?thesis
    using window_wellformed [OF pow2_4 h, of "[pk 1 1, pk 3 2, pk 8 3, pk 6 4]"] e pow2_4
    by simp
qed

section \<open>Delivery order\<close>

lemma delivered_append [simp]: "delivered (xs @ ys) = delivered xs @ delivered ys"
  by (induction xs rule: delivered.induct) auto

lemma released_append [simp]: "released (xs @ ys) = released xs @ released ys"
  by (induction xs rule: released.induct) auto


lemma unat_inc: "unat (s::u64) + 1 < 2 ^ 64 \<Longrightarrow> unat (s + 1) = unat s + 1"
  using unat_add_lem [of s 1] by simp



lemma rising_fields [simp]:
  "rising lo tr (d\<lparr>timestamp := t\<rparr>) = rising lo tr d"
  "rising lo tr (d\<lparr>dropped := r\<rparr>) = rising lo tr d"
  "rising lo tr (d\<lparr>maxTimestamp := m\<rparr>) = rising lo tr d"
  "rising lo tr (placed C d x p) = rising lo tr d"
  by (simp_all add: rising_def)








section \<open>Where delivered packets come from\<close>

lemma set_somes: "set (somes xs) = {q. Some q \<in> set xs}"
  by (induction xs rule: somes.induct) auto

lemma somes_replicate [simp]: "somes (replicate m None) = []"
  by (induction m) auto

lemma somes_update: "set (somes (xs[i := v])) \<subseteq> set (somes xs) \<union> set_option v"
  using set_update_subset_insert [of xs i v] by (cases v) (auto simp: set_somes)

lemma somes_nth: "i < length xs \<Longrightarrow> xs ! i = Some q \<Longrightarrow> q \<in> set (somes xs)"
  by (auto simp: set_somes dest: nth_mem)

lemma released_map_Release [simp]: "released (map Release qs) = qs"
  by (induction qs) auto

lemma delivered_map_Release [simp]: "delivered (map Release qs) = []"
  by (induction qs) auto

lemma sourced_skip: "sourced S R tr d \<Longrightarrow> sourced S R tr (advance C i d)"
  using somes_update [of "cache d" "unat (startIndex d)" None]
  by (auto simp: sourced_def)

lemma sourced_deliver:
  assumes "sized C d" "cache d ! unat (startIndex d) = Some q" "sourced S R tr d"
  shows "sourced S R (tr @ [Put k q]) (advance C i d)"
proof -
  have "q \<in> set (somes (cache d))" using assms(1,2) by (intro somes_nth) (simp_all add: sized_si)
  then show ?thesis using sourced_skip [OF assms(3), of C i] assms(3) by (auto simp: sourced_def)
qed

lemma sourced_fields [simp]:
  "sourced S R tr (d\<lparr>timestamp := t\<rparr>) = sourced S R tr d"
  "sourced S R tr (d\<lparr>dropped := r\<rparr>) = sourced S R tr d"
  "sourced S R tr (d\<lparr>maxTimestamp := m\<rparr>) = sourced S R tr d"
  "sourced S R tr (d\<lparr>seq := s\<rparr>) = sourced S R tr d"
  "sourced S R tr (d\<lparr>startIndex := x\<rparr>) = sourced S R tr d"
  by (simp_all add: sourced_def)

lemma forced_sourced:
  assumes "sized C d" "0 < n" "sourced S R tr d"
    "forced C n 0 d x drp tr = Some (d', x', drp', tr')"
  shows "sourced S R tr' d'"
proof -
  have "\<exists>i' d' x' drp' tr'. forced C n 0 d x drp tr = Some (d', x', drp', tr') \<and>
          sourced S R tr' d' \<and> sized C d' \<and> i' \<le> C \<and> (i' = C \<or> x' < C)"
    by (rule forced_rule [where P = "\<lambda>_ e _ _ t. sourced S R t e"])
       (use assms in \<open>simp_all add: sourced_skip sourced_deliver\<close>)
  then show ?thesis using assms(4) by auto
qed

lemma flush_sourced:
  assumes "sized C d" "0 < n" "sourced S R tr d"
    "flush C n ts 0 d drp tr = Some (d', drp', tr')"
  shows "sourced S R tr' d'"
proof -
  have "\<exists>i' d' drp' tr'. flush C n ts 0 d drp tr = Some (d', drp', tr') \<and>
          sourced S R tr' d' \<and> sized C d' \<and> i' \<le> C \<and>
          (i' < C \<longrightarrow> cache d' ! unat (startIndex d') = None)"
    by (rule flush_rule [where P = "\<lambda>_ e _ t. sourced S R t e"])
       (use assms in \<open>simp_all add: sourced_skip sourced_deliver\<close>)
  then show ?thesis using assms(4) by auto
qed

lemma call_sourced:
  assumes sz: "sized C d" and n: "0 < n" and ns: "\<not> stale d p"
  shows "\<exists>d' drp tr. cacheLookup d p C n = Some (d', drp, 0, tr) \<and> sized C d' \<and>
           sourced ((if restarts d p then {} else set (somes (cache d))) \<union> {p})
             (if restarts d p then somes (cache d) else []) tr d'"
proof -
  let ?S = "(if restarts d p then {} else set (somes (cache d))) \<union> {p}"
  let ?R = "if restarts d p then somes (cache d) else []"
  let ?tr1 = "if restarts d p then map Release (somes (cache d)) else []"
  from cacheLookup_accept [OF sz n ns]
  obtain d3 off3 drp3 tr3 d4 off4 drp4 d6 d7 drp7 tr7 tss where
    f: "forced C n 0 (entered C d p) (pkt_seq p - seq (entered C d p)) 0 ?tr1
       = Some (d3, off3, drp3, tr3)" and s3: "sized C d3"
    and b: "bulk C d3 off3 drp3 = (d4, off4, drp4)" and s4: "sized C d4" and o4: "off4 < C"
    and d6: "d6 = (placed C d4 off4 p)\<lparr>timestamp := tss\<rparr>" and s6: "sized C d6"
    and fl: "flush C n (pkt_timestamp p) 0 d6 drp4 tr3 = Some (d7, drp7, tr7)"
    and s7: "sized C d7"
    and r: "cacheLookup d p C n = Some (finish d7 drp7, drp7, 0, tr7)"
    by blast
  have "cache (entered C d p) = (if restarts d p then replicate (unat C) None else cache d)"
    by (simp add: entered_def Let_def purged_def seed_def)
  then have "sourced ?S ?R ?tr1 (entered C d p)" by (auto simp: sourced_def)
  from forced_sourced [OF sized_entered [OF sz] n this f]
  have "sourced ?S ?R tr3 d3" .
  then have "sourced ?S ?R tr3 d4" using b by (auto simp: bulk_def Let_def split: if_splits)
  moreover have "set (somes (cache (placed C d4 off4 p))) \<subseteq> set (somes (cache d4)) \<union> {p}"
    using somes_update [of "cache d4" _ "Some p"] by (simp add: placed_def)
  ultimately have "sourced ?S ?R tr3 d6" using d6 by (auto simp: sourced_def)
  from flush_sourced [OF s6 n this fl]
  have "sourced ?S ?R tr7 (finish d7 drp7)" by (simp add: finish_def)
  moreover have "sized C (finish d7 drp7)" using s7 by (simp add: finish_def sized_def)
  ultimately show ?thesis using r by simp
qed

lemma feed_sourced:
  assumes "sized C d" "0 < n"
  shows "\<exists>d' drp ex tr. feed C n d ps = Some (d', drp, ex, tr) \<and> sized C d' \<and>
           set (delivered tr) \<union> set (somes (cache d')) \<subseteq> set (somes (cache d)) \<union> set ps"
  using assms(1)
proof (induction ps arbitrary: d)
  case Nil
  then show ?case by simp
next
  case (Cons p ps)
  have "\<exists>d1 drp1 ex1 tr1. cacheLookup d p C n = Some (d1, drp1, ex1, tr1) \<and> sized C d1 \<and>
          set (delivered tr1) \<union> set (somes (cache d1)) \<subseteq> set (somes (cache d)) \<union> {p}"
  proof (cases "stale d p")
    case True
    then show ?thesis using Cons.prems by (auto simp: cacheLookup_stale)
  next
    case False
    from call_sourced [OF Cons.prems assms(2) False] show ?thesis
      by (fastforce simp: sourced_def split: if_splits)
  qed
  then obtain d1 drp1 ex1 tr1 where c: "cacheLookup d p C n = Some (d1, drp1, ex1, tr1)"
    and s1: "sized C d1"
    and k1: "set (delivered tr1) \<union> set (somes (cache d1)) \<subseteq> set (somes (cache d)) \<union> {p}"
    by blast
  from Cons.IH [OF s1]
  obtain d2 drp2 ex2 tr2 where f: "feed C n d1 ps = Some (d2, drp2, ex2, tr2)"
    and s2: "sized C d2"
    and k2: "set (delivered tr2) \<union> set (somes (cache d2)) \<subseteq> set (somes (cache d1)) \<union> set ps"
    by blast
  show ?case using c f s2 k1 k2 by auto
qed

text \<open>
  C8, the counterexample. A window of 4 slots has received sequence number 10 with
  timestamp 5; sequence number 1 with timestamp 6 is then a restart (\<open>maxTimestamp\<close>
  was 5). The next packet, sequence number 2 with the older timestamp 3, is not below
  the start of the reseated window: it is stored and delivered.
\<close>

theorem old_timestamp_after_restart_counterexample:
  "restarts (fst (the (feed 4 1 (newDispatcher 4) [pk 10 5]))) (pk 1 6) \<and>
   maxTimestamp (fst (the (feed 4 1 (newDispatcher 4) [pk 10 5]))) = 5 \<and>
   pkt_timestamp (pk 2 3) \<le>s 5 \<and>
   feed 4 1 (fst (the (feed 4 1 (newDispatcher 4) [pk 10 5, pk 1 6]))) [pk 2 3] =
     Some (\<lparr>cache = [None, None, None, None], timestamp = [0, 3, 0, 0], maxTimestamp = 6,
            dropped = 0, seq = 3, startIndex = 2\<rparr>, 0, 0, [Put 0 (pk 2 3)])"
  by code_simp

text \<open>
  C8, amended. When a call detects a restart, the packets cached at that moment are
  all released, and whatever the window delivers from that call on, however many
  packets \<open>ps\<close> follow, is the restarting packet or one of the packets received after
  it. (A packet received after the restart is accepted by its sequence number alone,
  also when its timestamp is not above the \<open>maxTimestamp\<close> of before the restart.)
\<close>

theorem restart_purges_cache:
  assumes "sized C d" "0 < n" "restarts d p"
  shows "\<exists>d' drp ex tr. feed C n d (p # ps) = Some (d', drp, ex, tr) \<and>
           set (delivered tr) \<subseteq> set (p # ps) \<and> set (somes (cache d)) \<subseteq> set (released tr)"
proof -
  have ns: "\<not> stale d p" using assms(3) by (simp add: stale_def restarts_def)
  from call_sourced [OF assms(1,2) ns] assms(3)
  obtain d1 drp1 tr1 where c: "cacheLookup d p C n = Some (d1, drp1, 0, tr1)"
    and s1: "sized C d1" and k1: "sourced {p} (somes (cache d)) tr1 d1" by auto
  from feed_sourced [OF s1 assms(2), of ps]
  obtain d2 drp2 ex2 tr2 where f: "feed C n d1 ps = Some (d2, drp2, ex2, tr2)"
    and k2: "set (delivered tr2) \<union> set (somes (cache d2)) \<subseteq> set (somes (cache d1)) \<union> set ps"
    by blast
  show ?thesis using c f k1 k2 by (auto simp: sourced_def)
qed

theorem restart_purges_cache_witness:
  "(sized 4 \<lparr>cache = [None, None, Some (pk 3 2), None], timestamp = [0, 2, 2, 0],
             maxTimestamp = 2, dropped = 0, seq = 2, startIndex = 1\<rparr> \<and> (0::nat) < 1 \<and>
    restarts \<lparr>cache = [None, None, Some (pk 3 2), None], timestamp = [0, 2, 2, 0],
             maxTimestamp = 2, dropped = 0, seq = 2, startIndex = 1\<rparr> (pk 1 5)) \<and>
   feed 4 1 \<lparr>cache = [None, None, Some (pk 3 2), None], timestamp = [0, 2, 2, 0],
             maxTimestamp = 2, dropped = 0, seq = 2, startIndex = 1\<rparr> [pk 1 5, pk 2 1] =
     Some (\<lparr>cache = [None, None, None, None], timestamp = [0, 1, 0, 0], maxTimestamp = 5,
             dropped = 0, seq = 3, startIndex = 2\<rparr>, 0, 0,
           [Release (pk 3 2), Put 0 (pk 1 5), Put 0 (pk 2 1)]) \<and>
   set (delivered [Release (pk 3 2), Put 0 (pk 1 5), Put 0 (pk 2 1)]) \<subseteq> set [pk 1 5, pk 2 1] \<and>
   set (somes (cache \<lparr>cache = [None, None, Some (pk 3 2), None], timestamp = [0, 2, 2, 0],
             maxTimestamp = 2, dropped = 0, seq = 2, startIndex = 1\<rparr>))
     \<subseteq> set (released [Release (pk 3 2), Put 0 (pk 1 5), Put 0 (pk 2 1)])"
proof -
  let ?d = "\<lparr>cache = [None, None, Some (pk 3 2), None], timestamp = [0, 2, 2, 0],
             maxTimestamp = 2, dropped = 0, seq = 2, startIndex = 1\<rparr>"
  have s: "sized 4 ?d" by (simp add: sized_def pow2_4)
  have h: "(0::nat) < 1" by simp
  have r: "restarts ?d (pk 1 5)" by (simp add: restarts_def seed_def pk_def)
  have e: "feed 4 1 ?d [pk 1 5, pk 2 1] =
     Some (\<lparr>cache = [None, None, None, None], timestamp = [0, 1, 0, 0], maxTimestamp = 5,
             dropped = 0, seq = 3, startIndex = 2\<rparr>, 0, 0,
           [Release (pk 3 2), Put 0 (pk 1 5), Put 0 (pk 2 1)])"
    by code_simp
  from restart_purges_cache [OF s h r, of "[pk 2 1]"] e
  have "set (delivered [Release (pk 3 2), Put 0 (pk 1 5), Put 0 (pk 2 1)])
          \<subseteq> set [pk 1 5, pk 2 1] \<and>
        set (somes (cache ?d))
          \<subseteq> set (released [Release (pk 3 2), Put 0 (pk 1 5), Put 0 (pk 2 1)])"
    by simp
  then show ?thesis using s r e by simp
qed

section \<open>Counting packets\<close>

lemma len_somes_drop: "length (somes (xs[i := None])) \<le> length (somes xs)"
proof (induction xs arbitrary: i rule: somes.induct)
  case 1
  then show ?case by simp
next
  case (2 xs)
  then show ?case by (cases i) auto
next
  case (3 x xs)
  then show ?case by (cases i) (auto simp: le_SucI)
qed

lemma len_somes_take:
  "i < length xs \<Longrightarrow> xs ! i = Some q \<Longrightarrow> Suc (length (somes (xs[i := None]))) = length (somes xs)"
proof (induction xs arbitrary: i rule: somes.induct)
  case 1
  then show ?case by simp
next
  case (2 xs)
  then show ?case by (cases i) auto
next
  case (3 x xs)
  then show ?case by (cases i) auto
qed

lemma len_somes_put: "length (somes (xs[i := Some p])) \<le> Suc (length (somes xs))"
proof (induction xs arbitrary: i rule: somes.induct)
  case 1
  then show ?case by simp
next
  case (2 xs)
  then show ?case by (cases i) auto
next
  case (3 x xs)
  then show ?case by (cases i) auto
qed

lemma counted_skip: "counted K tr d \<Longrightarrow> counted K tr (advance C i d)"
  using len_somes_drop [of "cache d" "unat (startIndex d)"] by (simp add: counted_def)

lemma counted_deliver:
  assumes "sized C d" "cache d ! unat (startIndex d) = Some q" "counted K tr d"
  shows "counted K (tr @ [Put k q]) (advance C i d)"
  using len_somes_take [OF sized_si(1) [OF assms(1)] assms(2)] assms(3)
  by (simp add: counted_def)

lemma counted_fields [simp]:
  "counted K tr (d\<lparr>timestamp := t\<rparr>) = counted K tr d"
  "counted K tr (d\<lparr>dropped := r\<rparr>) = counted K tr d"
  "counted K tr (d\<lparr>maxTimestamp := m\<rparr>) = counted K tr d"
  "counted K tr (d\<lparr>seq := s\<rparr>) = counted K tr d"
  "counted K tr (d\<lparr>startIndex := x\<rparr>) = counted K tr d"
  by (simp_all add: counted_def)

lemma forced_counted:
  assumes "sized C d" "0 < n" "counted K tr d"
    "forced C n 0 d x drp tr = Some (d', x', drp', tr')"
  shows "counted K tr' d'"
proof -
  have "\<exists>i' d' x' drp' tr'. forced C n 0 d x drp tr = Some (d', x', drp', tr') \<and>
          counted K tr' d' \<and> sized C d' \<and> i' \<le> C \<and> (i' = C \<or> x' < C)"
    by (rule forced_rule [where P = "\<lambda>_ e _ _ t. counted K t e"])
       (use assms in \<open>simp_all add: counted_skip counted_deliver\<close>)
  then show ?thesis using assms(4) by auto
qed

lemma flush_counted:
  assumes "sized C d" "0 < n" "counted K tr d"
    "flush C n ts 0 d drp tr = Some (d', drp', tr')"
  shows "counted K tr' d'"
proof -
  have "\<exists>i' d' drp' tr'. flush C n ts 0 d drp tr = Some (d', drp', tr') \<and>
          counted K tr' d' \<and> sized C d' \<and> i' \<le> C \<and>
          (i' < C \<longrightarrow> cache d' ! unat (startIndex d') = None)"
    by (rule flush_rule [where P = "\<lambda>_ e _ t. counted K t e"])
       (use assms in \<open>simp_all add: counted_skip counted_deliver\<close>)
  then show ?thesis using assms(4) by auto
qed

text \<open>
  A call takes one packet in: afterwards the packets cached, delivered and expired are
  at most one more than the packets cached before.
\<close>

lemma call_counted:
  assumes sz: "sized C d" and n: "0 < n"
  shows "\<exists>d' drp ex tr. cacheLookup d p C n = Some (d', drp, ex, tr) \<and> sized C d' \<and>
           length (somes (cache d')) + length (delivered tr) + unat ex
             \<le> Suc (length (somes (cache d)))"
proof (cases "stale d p")
  case True
  then show ?thesis using sz by (simp add: cacheLookup_stale)
next
  case False
  let ?K = "length (somes (cache d))"
  let ?tr1 = "if restarts d p then map Release (somes (cache d)) else []"
  from cacheLookup_accept [OF sz n False]
  obtain d3 off3 drp3 tr3 d4 off4 drp4 d6 d7 drp7 tr7 tss where
    f: "forced C n 0 (entered C d p) (pkt_seq p - seq (entered C d p)) 0 ?tr1
       = Some (d3, off3, drp3, tr3)" and s3: "sized C d3"
    and b: "bulk C d3 off3 drp3 = (d4, off4, drp4)" and s4: "sized C d4" and o4: "off4 < C"
    and d6: "d6 = (placed C d4 off4 p)\<lparr>timestamp := tss\<rparr>" and s6: "sized C d6"
    and fl: "flush C n (pkt_timestamp p) 0 d6 drp4 tr3 = Some (d7, drp7, tr7)"
    and s7: "sized C d7"
    and r: "cacheLookup d p C n = Some (finish d7 drp7, drp7, 0, tr7)"
    by blast
  have "cache (entered C d p) = (if restarts d p then replicate (unat C) None else cache d)"
    by (simp add: entered_def Let_def purged_def seed_def)
  then have "counted ?K ?tr1 (entered C d p)" by (simp add: counted_def)
  from forced_counted [OF sized_entered [OF sz] n this f]
  have "counted ?K tr3 d3" .
  then have "counted ?K tr3 d4" using b by (auto simp: bulk_def Let_def split: if_splits)
  moreover have "length (somes (cache (placed C d4 off4 p))) \<le> Suc (length (somes (cache d4)))"
    using len_somes_put [of "cache d4" _ p] by (simp add: placed_def)
  ultimately have "counted (Suc ?K) tr3 d6" using d6 by (simp add: counted_def)
  from flush_counted [OF s6 n this fl]
  have "counted (Suc ?K) tr7 (finish d7 drp7)" by (simp add: finish_def)
  moreover have "sized C (finish d7 drp7)" using s7 by (simp add: finish_def sized_def)
  ultimately show ?thesis using r by (simp add: counted_def)
qed

section \<open>The counters of the adapter\<close>

lemma minPowerOfTwo_from_pow:
  "i + m = 30 \<Longrightarrow> \<exists>j\<le>30. minPowerOfTwo_from m i v = push_bit j 1"
proof (induction m arbitrary: i)
  case 0
  then show ?case by auto
next
  case (Suc m)
  show ?case
  proof (cases "v \<le> push_bit i 1")
    case True
    have "i \<le> 30" using Suc.prems by simp
    then show ?thesis using True by auto
  next
    case False
    have "Suc i + m = 30" using Suc.prems by simp
    from Suc.IH [OF this] show ?thesis using False by simp
  qed
qed

lemma pow2_minPowerOfTwo: "pow2 (ucast (minPowerOfTwo v))"
proof -
  from minPowerOfTwo_from_pow [of 0 30 v]
  obtain j where j: "j \<le> 30" "minPowerOfTwo v = push_bit j 1"
    by (auto simp: minPowerOfTwo_def)
  have "(ucast ((2::u32) ^ j) :: u64) = 2 ^ j"
    using j(1) by (intro bit_word_eqI) (auto simp: bit_ucast_iff bit_exp_iff)
  then show ?thesis using j pow2I [of j] by (simp add: push_bit_of_1)
qed

lemma heldIn_update:
  assumes "k < length inst"
  shows "heldIn (inst[k := d]) + length (somes (cache (inst ! k)))
           = heldIn inst + length (somes (cache d))"
proof -
  let ?g = "\<lambda>d. length (somes (cache d))"
  have "sum_list ((map ?g inst)[k := ?g d]) = sum_list (map ?g inst) + ?g d - (map ?g inst) ! k"
    using assms by (intro sum_list_update) simp
  moreover have "(map ?g inst) ! k \<le> sum_list (map ?g inst)"
    using assms by (intro member_le_sum_list) auto
  ultimately show ?thesis using assms by (simp add: heldIn_def map_update)
qed

lemma heldIn_zero [simp]: "heldIn (replicate m zeroDispatcher) = 0"
  by (simp add: heldIn_def zeroDispatcher_def)

lemma held_update:
  assumes "finite (dom m)"
  shows "(\<Sum>k\<in>dom (m(ip \<mapsto> v)). heldIn (the ((m(ip \<mapsto> v)) k)))
           + (case m ip of None \<Rightarrow> 0 | Some w \<Rightarrow> heldIn w)
         = (\<Sum>k\<in>dom m. heldIn (the (m k))) + heldIn v"
proof -
  let ?D = "dom m - {ip}"
  have f: "finite ?D" using assms by simp
  have d: "dom (m(ip \<mapsto> v)) = insert ip ?D" by auto
  let ?g = "\<lambda>k. heldIn (the ((m(ip \<mapsto> v)) k))"
  have "sum ?g (insert ip ?D) = ?g ip + sum ?g ?D" using f by (intro sum.insert) auto
  moreover have "sum ?g ?D = (\<Sum>k\<in>?D. heldIn (the (m k)))" by (intro sum.cong) auto
  ultimately have a: "sum ?g (dom (m(ip \<mapsto> v))) = heldIn v + (\<Sum>k\<in>?D. heldIn (the (m k)))"
    unfolding d by simp
  show ?thesis
  proof (cases "m ip")
    case None
    then have "?D = dom m" by auto
    then show ?thesis using a None by simp
  next
    case (Some w)
    then have "dom m = insert ip ?D" by auto
    then have "(\<Sum>k\<in>dom m. heldIn (the (m k))) = heldIn w + (\<Sum>k\<in>?D. heldIn (the (m k)))"
      using f Some by (metis Diff_iff insertI1 option.sel sum.insert)
    then show ?thesis using a Some by simp
  qed
qed


lemma sized_made: "pow2 C \<Longrightarrow> sized C (makeSlices C zeroDispatcher)"
  using sized_newDispatcher [of C] by (simp add: newDispatcher_def)

lemma ran_upd: "inst \<in> ran (m(ip \<mapsto> v)) \<Longrightarrow> inst = v \<or> inst \<in> ran m"
  by (auto simp: ran_def split: if_splits)

lemma findAndAdd_ok:
  assumes A: "adapterInv a" and B: "balanced a"
    and idx: "unat (tridentDispatcherIndex p) < TRIDENT_DISPATCHER_MAX"
    and nw: "unat (RxPackets (counter a)) + 1 < 2 ^ 64"
  shows "\<exists>a'. findAndAdd a p = Some a' \<and> adapterInv a' \<and> balanced a' \<and>
           unat (RxPackets (counter a')) = unat (RxPackets (counter a)) + 1"
proof -
  let ?C = "cacheSize a"
  let ?k = "unat (tridentDispatcherIndex p)"
  let ?ip = "tridentIp p"
  let ?inst = "case instances a ?ip of
                None \<Rightarrow> (replicate TRIDENT_DISPATCHER_MAX zeroDispatcher)
                           [?k := makeSlices ?C zeroDispatcher]
              | Some inst \<Rightarrow> inst"
  let ?old = "?inst ! ?k"
  let ?d = "if cache ?old = [] then makeSlices ?C ?old else ?old"
  have p2: "pow2 ?C" and n: "0 < nslaves a" and fin: "finite (dom (instances a))"
    and rn: "\<And>inst. inst \<in> ran (instances a) \<Longrightarrow> length inst = TRIDENT_DISPATCHER_MAX \<and>
               (\<forall>d\<in>set inst. d = zeroDispatcher \<or> sized ?C d)"
    using A by (auto simp: adapterInv_def)
  have c0: "0 < unat ?C" using pow2_pos [OF p2] by (simp add: word_less_nat_alt)
  have il: "length ?inst = TRIDENT_DISPATCHER_MAX"
    and ie: "\<forall>d\<in>set ?inst. d = zeroDispatcher \<or> sized ?C d"
    and ih: "heldIn ?inst = (case instances a ?ip of None \<Rightarrow> 0 | Some w \<Rightarrow> heldIn w)"
  proof -
    show "length ?inst = TRIDENT_DISPATCHER_MAX"
      using rn by (auto simp: ran_def split: option.splits)
    show "\<forall>d\<in>set ?inst. d = zeroDispatcher \<or> sized ?C d"
    proof (cases "instances a ?ip")
      case None
      then show ?thesis using sized_made [OF p2]
        by (auto dest!: set_update_subset_insert [THEN subsetD])
    next
      case (Some w)
      then have "w \<in> ran (instances a)" by (auto simp: ran_def)
      then show ?thesis using rn Some by simp
    qed
    show "heldIn ?inst = (case instances a ?ip of None \<Rightarrow> 0 | Some w \<Rightarrow> heldIn w)"
    proof (cases "instances a ?ip")
      case None
      have "heldIn ((replicate TRIDENT_DISPATCHER_MAX zeroDispatcher)
                      [?k := makeSlices ?C zeroDispatcher])
             + length (somes (cache (replicate TRIDENT_DISPATCHER_MAX zeroDispatcher ! ?k)))
            = heldIn (replicate TRIDENT_DISPATCHER_MAX zeroDispatcher)
             + length (somes (cache (makeSlices ?C zeroDispatcher)))"
        using idx by (intro heldIn_update) simp
      then show ?thesis using None idx by (simp add: makeSlices_def)
    next
      case (Some w)
      then show ?thesis by simp
    qed
  qed
  have kl: "?k < length ?inst" using il idx by simp
  then have "?old \<in> set ?inst" by (rule nth_mem)
  then have dz: "?old = zeroDispatcher \<or> sized ?C ?old" using ie by blast
  have sd: "sized ?C ?d"
  proof (cases "?old = zeroDispatcher")
    case True
    then show ?thesis using sized_made [OF p2] by (simp add: zeroDispatcher_def)
  next
    case False
    then have "sized ?C ?old" using dz by blast
    moreover from this have "cache ?old \<noteq> []" using c0 by (auto simp: sized_def)
    ultimately show ?thesis by simp
  qed
  have hd: "length (somes (cache ?d)) = length (somes (cache ?old))"
    by (simp add: makeSlices_def)
  from call_counted [OF sd n, of p]
  obtain d' drp ex tr where c: "cacheLookup ?d p ?C (nslaves a) = Some (d', drp, ex, tr)"
    and s': "sized ?C d'"
    and k: "length (somes (cache d')) + length (delivered tr) + unat ex
              \<le> Suc (length (somes (cache ?d)))" by blast
  let ?a = "a\<lparr>instances := (instances a)(?ip \<mapsto> ?inst[?k := d']),
              counter := countPacket (counter a) drp ex,
              stats := countPacket (stats a) drp ex,
              events := events a @ tr\<rparr>"
  have r: "findAndAdd a p = Some ?a"
    using idx c by (simp add: findAndAdd_def Let_def)
  have A': "adapterInv ?a"
    unfolding adapterInv_def
  proof (intro conjI ballI)
    show "pow2 (cacheSize ?a)" using p2 by simp
    show "0 < nslaves ?a" using n by simp
    show "finite (dom (instances ?a))" using fin by simp
  next
    fix inst assume "inst \<in> ran (instances ?a)"
    then have "inst = ?inst[?k := d'] \<or> inst \<in> ran (instances a)"
      using ran_upd [of inst "instances a" ?ip "?inst[?k := d']"] by simp
    then show "length inst = TRIDENT_DISPATCHER_MAX" using il rn by auto
  next
    fix inst d assume "inst \<in> ran (instances ?a)" and d: "d \<in> set inst"
    then have "inst = ?inst[?k := d'] \<or> inst \<in> ran (instances a)"
      using ran_upd [of inst "instances a" ?ip "?inst[?k := d']"] by simp
    then show "d = zeroDispatcher \<or> sized (cacheSize ?a) d"
    proof
      assume "inst = ?inst[?k := d']"
      then have "d = d' \<or> d \<in> set ?inst"
        using d set_update_subset_insert [of ?inst ?k d'] by auto
      then show ?thesis using s' ie by auto
    next
      assume "inst \<in> ran (instances a)"
      then show ?thesis using rn d by simp
    qed
  qed
  have h1: "held ?a + heldIn ?inst = held a + heldIn (?inst[?k := d'])"
    using held_update [OF fin, of ?ip "?inst[?k := d']"] ih by (simp add: held_def)
  have h2: "heldIn (?inst[?k := d']) + length (somes (cache ?old))
              = heldIn ?inst + length (somes (cache d'))"
    using kl by (rule heldIn_update)
  have e1: "unat (RxExpired (counter ?a)) \<le> unat (RxExpired (counter a)) + unat ex"
    using unat_add_le [of "RxExpired (counter a)" ex] by (simp add: countPacket_def)
  have e2: "unat (RxPackets (counter ?a)) = unat (RxPackets (counter a)) + 1"
    using nw by (simp add: countPacket_def unat_inc)
  have "balanced ?a"
    using B h1 h2 e1 e2 k hd unfolding balanced_def by simp
  then show ?thesis using r A' e2 by blast
qed

lemma process_ok:
  assumes A: "adapterInv a" and B: "balanced a"
    and idx: "\<not> fst x \<longrightarrow> unat (tridentDispatcherIndex (snd x)) < TRIDENT_DISPATCHER_MAX"
    and nw: "unat (RxPackets (counter a)) + 1 < 2 ^ 64"
  shows "\<exists>a'. process a x = Some a' \<and> adapterInv a' \<and> balanced a' \<and>
           unat (RxPackets (counter a')) =
             unat (RxPackets (counter a)) + (if fst x then 0 else 1)"
proof (cases x)
  case (Pair invalid packet)
  show ?thesis
  proof (cases invalid)
    case True
    then show ?thesis using A B Pair
      by (simp add: process_def adapterInv_def balanced_def held_def)
  next
    case False
    have "unat (tridentDispatcherIndex (calcHash packet)) < TRIDENT_DISPATCHER_MAX"
      using idx Pair False by (simp add: calcHash_def Let_def)
    from findAndAdd_ok [OF A B this nw] show ?thesis using Pair False
      by (auto simp: process_def)
  qed
qed

lemma run_ok:
  assumes "adapterInv a" "balanced a"
    "\<forall>x\<in>set xs. \<not> fst x \<longrightarrow> unat (tridentDispatcherIndex (snd x)) < TRIDENT_DISPATCHER_MAX"
    "unat (RxPackets (counter a)) + length xs < 2 ^ 64"
  shows "\<exists>a'. run a xs = Some a' \<and> adapterInv a' \<and> balanced a' \<and>
           unat (RxPackets (counter a')) =
             unat (RxPackets (counter a)) + length (filter (\<lambda>x. \<not> fst x) xs)"
  using assms
proof (induction xs arbitrary: a)
  case Nil
  then show ?case by simp
next
  case (Cons x xs)
  have "\<not> fst x \<longrightarrow> unat (tridentDispatcherIndex (snd x)) < TRIDENT_DISPATCHER_MAX"
    using Cons.prems(3) by simp
  moreover have "unat (RxPackets (counter a)) + 1 < 2 ^ 64" using Cons.prems(4) by simp
  ultimately obtain a1 where p: "process a x = Some a1" and A1: "adapterInv a1"
    and B1: "balanced a1"
    and c1: "unat (RxPackets (counter a1)) =
               unat (RxPackets (counter a)) + (if fst x then 0 else 1)"
    using process_ok [OF Cons.prems(1,2)] by blast
  have "unat (RxPackets (counter a1)) + length xs < 2 ^ 64" using c1 Cons.prems(4) by simp
  moreover have "\<forall>x\<in>set xs. \<not> fst x \<longrightarrow>
      unat (tridentDispatcherIndex (snd x)) < TRIDENT_DISPATCHER_MAX"
    using Cons.prems(3) by simp
  ultimately obtain a2 where "run a1 xs = Some a2" "adapterInv a2" "balanced a2"
    "unat (RxPackets (counter a2)) =
       unat (RxPackets (counter a1)) + length (filter (\<lambda>x. \<not> fst x) xs)"
    using Cons.IH [OF A1 B1] by blast
  then show ?case using p c1 by simp
qed

lemma new_adapter_ok:
  "0 < nqueues \<Longrightarrow> adapterInv (NewTridentAdapter nqueues sz) \<and>
     balanced (NewTridentAdapter nqueues sz) \<and>
     RxPackets (counter (NewTridentAdapter nqueues sz)) = 0"
  by (simp add: NewTridentAdapter_def adapterInv_def balanced_def held_def zeroCounter_def
      pow2_minPowerOfTwo)


text \<open>
  C7, the counterexample. An adapter with one queue and 4 slots receives sequence
  number 1, then sequence number 100 from the same sender: the second call counts the
  95 sequence numbers it skips as dropped. \<open>RxPackets\<close> is 2, \<open>RxDropped\<close> is 95, one
  packet has been delivered.
\<close>

theorem rx_balance_counterexample:
  "\<not> (unat (RxDropped (counter (the (run (NewTridentAdapter 1 4)
              [(False, pk 1 1), (False, pk 100 1)]))))
       + unat (RxExpired (counter (the (run (NewTridentAdapter 1 4)
              [(False, pk 1 1), (False, pk 100 1)]))))
       + length (delivered (events (the (run (NewTridentAdapter 1 4)
              [(False, pk 1 1), (False, pk 100 1)]))))
      \<le> unat (RxPackets (counter (the (run (NewTridentAdapter 1 4)
              [(False, pk 1 1), (False, pk 100 1)])))))"
  by code_simp

text \<open>
  C7, amended. At every point of a run of an adapter with at least one and fewer than
  256 queues (after any list \<open>xs\<close> of datagrams, shorter than \<open>2 ^ 64\<close> so that
  \<open>RxPackets\<close> has not wrapped, each with the verdict of \<^verbatim>\<open>DecodeHeader\<close> and, when
  valid, a dispatcher index below 16), every call has returned, \<open>RxPackets\<close> is the
  number of datagrams received with a valid header, and
  \<open>RxPackets \<ge> RxExpired + delivered\<close>. \<open>RxDropped\<close> is not part of the bound.
\<close>

theorem rx_packets_cover_expired_and_delivered:
  assumes "0 < nqueues"
    and "\<forall>x\<in>set xs. \<not> fst x \<longrightarrow>
           unat (tridentDispatcherIndex (snd x)) < TRIDENT_DISPATCHER_MAX"
    and "length xs < 2 ^ 64"
    and "nqueues < 256"
  shows "\<exists>a. run (NewTridentAdapter nqueues sz) xs = Some a \<and>
           unat (RxPackets (counter a)) = length (filter (\<lambda>x. \<not> fst x) xs) \<and>
           unat (RxExpired (counter a)) + length (delivered (events a))
             \<le> unat (RxPackets (counter a))"
proof -
  let ?a = "NewTridentAdapter nqueues sz"
  from new_adapter_ok [OF assms(1), of sz]
  have A: "adapterInv ?a" and B: "balanced ?a" and z: "RxPackets (counter ?a) = 0"
    by simp_all
  have "unat (RxPackets (counter ?a)) + length xs < 2 ^ 64" using z assms(3) by simp
  from run_ok [OF A B assms(2) this]
  obtain a where "run ?a xs = Some a" "balanced a"
    "unat (RxPackets (counter a)) =
       unat (RxPackets (counter ?a)) + length (filter (\<lambda>x. \<not> fst x) xs)" by blast
  then show ?thesis using z by (auto simp: balanced_def)
qed

theorem rx_packets_cover_expired_and_delivered_witness:
  "((0::nat) < 1 \<and> (1::nat) < 256 \<and>
    unat (tridentDispatcherIndex (pk 1 1)) < TRIDENT_DISPATCHER_MAX \<and>
    unat (tridentDispatcherIndex (pk 100 1)) < TRIDENT_DISPATCHER_MAX \<and>
    unat (tridentDispatcherIndex (pk 50 1)) < TRIDENT_DISPATCHER_MAX \<and>
    length [(False, pk 1 1), (False, pk 100 1), (False, pk 50 1), (True, pk 0 0)]
      < (2::nat) ^ 64) \<and>
   counter (the (run (NewTridentAdapter 1 4)
       [(False, pk 1 1), (False, pk 100 1), (False, pk 50 1), (True, pk 0 0)])) =
     \<lparr>RxPackets = 3, RxDropped = 95, RxErrors = 1, RxExpired = 1\<rparr> \<and>
   delivered (events (the (run (NewTridentAdapter 1 4)
       [(False, pk 1 1), (False, pk 100 1), (False, pk 50 1), (True, pk 0 0)]))) = [pk 1 1] \<and>
   unat (RxPackets (counter (the (run (NewTridentAdapter 1 4)
       [(False, pk 1 1), (False, pk 100 1), (False, pk 50 1), (True, pk 0 0)]))))
     = length (filter (\<lambda>x. \<not> fst x)
         [(False, pk 1 1), (False, pk 100 1), (False, pk 50 1), (True, pk 0 0)]) \<and>
   unat (RxExpired (counter (the (run (NewTridentAdapter 1 4)
       [(False, pk 1 1), (False, pk 100 1), (False, pk 50 1), (True, pk 0 0)]))))
     + length (delivered (events (the (run (NewTridentAdapter 1 4)
       [(False, pk 1 1), (False, pk 100 1), (False, pk 50 1), (True, pk 0 0)]))))
     \<le> unat (RxPackets (counter (the (run (NewTridentAdapter 1 4)
       [(False, pk 1 1), (False, pk 100 1), (False, pk 50 1), (True, pk 0 0)]))))"
proof -
  let ?xs = "[(False, pk 1 1), (False, pk 100 1), (False, pk 50 1), (True, pk 0 0)]"
  have h: "(0::nat) < 1" by simp
  have i: "\<forall>x\<in>set ?xs. \<not> fst x \<longrightarrow>
             unat (tridentDispatcherIndex (snd x)) < TRIDENT_DISPATCHER_MAX"
    by (simp add: pk_def TRIDENT_DISPATCHER_MAX_def)
  have l: "length ?xs < (2::nat) ^ 64" by simp
  have k: "(1::nat) < 256" by simp
  have c: "counter (the (run (NewTridentAdapter 1 4) ?xs)) =
     \<lparr>RxPackets = 3, RxDropped = 95, RxErrors = 1, RxExpired = 1\<rparr>" by code_simp
  have e: "delivered (events (the (run (NewTridentAdapter 1 4) ?xs))) = [pk 1 1]"
    by code_simp
  from rx_packets_cover_expired_and_delivered [OF h i l k, of 4]
  have "unat (RxPackets (counter (the (run (NewTridentAdapter 1 4) ?xs))))
          = length (filter (\<lambda>x. \<not> fst x) ?xs) \<and>
     unat (RxExpired (counter (the (run (NewTridentAdapter 1 4) ?xs))))
     + length (delivered (events (the (run (NewTridentAdapter 1 4) ?xs))))
     \<le> unat (RxPackets (counter (the (run (NewTridentAdapter 1 4) ?xs))))"
    by auto
  then show ?thesis using i l c e by simp
qed

section \<open>Reordering within the window: the loops\<close>





text \<open>\<^verbatim>\<open>cacheLookup\<close> is its stale test, then \<open>flushEntry\<close>, then the in-order flush.\<close>

lemma cacheLookup_flushEntry:
  "cacheLookup d p C n =
     (if stale d p then Some (d, 0, 1, [Release p])
      else do {
        (d6, drp4, tr3) \<leftarrow> flushEntry d p C n;
        (d7, drp7, tr7) \<leftarrow> flush C n (pkt_timestamp p) 0 d6 drp4 tr3;
        Some (finish d7 drp7, drp7, 0, tr7)
      })"
proof (cases "stale d p")
  case True
  then show ?thesis by (simp add: cacheLookup_stale)
next
  case False
  then have c: "\<not> (pkt_seq p < seq (if seq d = 0 then d\<lparr>seq := pkt_seq p\<rparr> else d) \<and>
      \<not> maxTimestamp (if seq d = 0 then d\<lparr>seq := pkt_seq p\<rparr> else d) <s pkt_timestamp p)"
    by (auto simp: stale_def seed_def split: if_splits)
  show ?thesis
    unfolding cacheLookup_def flushEntry_def Let_def
    apply (subst if_not_P [OF c])
    apply (simp add: False split_def finish_def)
    done
qed




lemma nth_update_cases: "j < length xs \<Longrightarrow> xs[k := v] ! j = v \<or> xs[k := v] ! j \<in> set xs"
  by (cases "k = j") auto





text \<open>
  The test on two runs of a fresh window of 4 slots: with equal timestamps no slot
  times out, however far the sequence numbers jump; with packet 2 missing and packet 4
  three seconds after packet 3, the slot of packet 2 does.
\<close>

lemma timeoutFree_examples:
  "timeoutFree 4 1 (newDispatcher 4) [pk 1 1, pk 3 1, pk 6 1, pk 2 1, pk 4 1, pk 5 1] \<and>
   \<not> timeoutFree 4 1 (newDispatcher 4)
       [pk 1 1000000000, pk 3 1000000000, pk 4 4000000000, pk 2 4000000000]"
  by code_simp




end
